theory Spec2Isabelle
  imports Main "HOL-Library.Word" "HOL-Library.Multiset" "HOL-Library.Log_Nat"
begin

unbundle bit_operations_syntax

section \<open>Data model of the fixed-width column\<close>

text \<open>
  A \<open>ColumnVector<T>\<close> owns one contiguous buffer \<open>data\<close> of elements of type \<open>T\<close>; the
  model of the buffer is the list of its elements, row \<open>i\<close> at index \<open>i\<close>. A filter and a
  null map are arrays of \<open>UInt8\<close>, one byte per row.
\<close>

type_synonym UInt8 = "8 word"

datatype ErrorCode = INTERNAL_ERROR | NOT_IMPLEMENTED_ERROR

text \<open>
  How a call can end without a result. \<open>Exception\<close> is a \<open>throw doris::Exception(code, ...)\<close>,
  which unwinds to the caller, who may catch it. \<open>Abort\<close> is the end of the process
  (\<open>CHECK(false)\<close>, as in \<open>read_one_cell_from_json\<close>). \<open>OutOfBounds\<close> is a read or write
  outside a buffer, which C++ leaves undefined.

  \<open>SizeMismatch\<close> is what \<open>column_match_filter_size\<close> raises.
  Modelled from the spec: \<open>column_match_filter_size\<close> is declared in
  \<open>vec/columns/columns_common.h\<close>, which is not among the sources; the contract of the
  filter is "\<open>len(mask) == column.size()\<close>, else \<open>SizeMismatch\<close>".
\<close>

datatype fault = Exception ErrorCode | SizeMismatch | Abort | OutOfBounds

section \<open>The compactor: \<open>ColumnVector<T>::filter\<close>\<close>

text \<open>
  Modelled from the spec: the helpers of \<open>util/simd/bits.h\<close> are not among the sources.
  \<open>simd::bits_mask_length()\<close>, the block width \<open>SIMD_BYTES\<close>, is the parameter \<open>W\<close> of the
  model. \<open>simd::bytes_mask_to_bits_mask\<close> turns the \<open>W\<close> mask bytes of a block into its mask
  bits ("the block's mask bits"), bit \<open>idx\<close> set when byte \<open>idx\<close> of the block is true, which
  for a byte is being nonzero, as in the element-by-element loop of \<open>filter\<close>. The test
  \<open>0 == mask\<close> is "all-false", the test \<open>simd::bits_mask_all() == mask\<close> is "all-true", and
  \<open>simd::iterate_through_bits_mask\<close> visits "only that block's set bits", in ascending
  order of \<open>idx\<close>.
\<close>

definition bytes_mask_to_bits_mask :: "nat \<Rightarrow> UInt8 list \<Rightarrow> nat \<Rightarrow> bool list" where
  "bytes_mask_to_bits_mask W filt filt_pos = map (\<lambda>b. b \<noteq> 0) (take W (drop filt_pos filt))"

definition mask_is_zero :: "bool list \<Rightarrow> bool" where
  "mask_is_zero bits = list_all (\<lambda>b. \<not> b) bits"

definition mask_is_all :: "bool list \<Rightarrow> bool" where
  "mask_is_all bits = list_all (\<lambda>b. b) bits"

definition iterate_through_bits_mask :: "bool list \<Rightarrow> nat list" where
  "iterate_through_bits_mask bits = filter (\<lambda>idx. bits ! idx) [0..<length bits]"

text \<open>
  Modelled from the spec: \<open>PODArray\<close> (\<open>vec/common/pod_array.h\<close>), the type of the buffer
  \<open>res_data\<close> of the new column, is not among the sources; of a column's buffer the spec
  says "\<open>capacity() >= size()\<close>". The model of the buffer while \<open>filter\<close> fills it is the
  list of the elements written so far with the number of elements the buffer has room
  for. \<open>reserve(n)\<close> makes room for \<open>n\<close> elements and is taken to make room for no more,
  the least the call can do, and it never takes room away. \<open>insert(from, to)\<close> appends a
  range and makes the room it needs. \<open>push_back_without_reserve\<close> writes the next slot and
  makes no room: with no room left the write is past the buffer.
\<close>

type_synonym 'a PODArray = "'a list \<times> nat"

definition reserve :: "nat \<Rightarrow> 'a PODArray \<Rightarrow> 'a PODArray" where
  "reserve n arr = (case arr of (elems, capacity) \<Rightarrow> (elems, max capacity n))"

definition insert_range :: "'a list \<Rightarrow> 'a PODArray \<Rightarrow> 'a PODArray" where
  "insert_range xs arr =
     (case arr of (elems, capacity) \<Rightarrow> (elems @ xs, max capacity (length elems + length xs)))"

definition push_back_without_reserve :: "'a \<Rightarrow> 'a PODArray \<Rightarrow> fault + 'a PODArray" where
  "push_back_without_reserve x arr =
     (case arr of (elems, capacity) \<Rightarrow>
        if length elems < capacity then Inr (elems @ [x], capacity) else Inl OutOfBounds)"

text \<open>
  The mixed block of \<open>filter\<close> (to a new column): for each set bit \<open>idx\<close>, in ascending
  order, \<open>res_data.push_back_without_reserve(data_pos[idx])\<close>.
\<close>

fun filter_bits :: "'a list \<Rightarrow> nat \<Rightarrow> nat list \<Rightarrow> 'a PODArray \<Rightarrow> fault + 'a PODArray" where
  "filter_bits data pos [] res_data = Inr res_data"
| "filter_bits data pos (idx # idxs) res_data =
     (case push_back_without_reserve (data ! (pos + idx)) res_data of
        Inl e \<Rightarrow> Inl e
      | Inr res_data' \<Rightarrow> filter_bits data pos idxs res_data')"

text \<open>
  The first loop of \<open>filter\<close> (to a new column). \<open>filt_pos\<close> and \<open>data_pos\<close> advance together,
  so one position stands for both; \<open>filt_end_sse\<close> is \<open>size / SIMD_BYTES * SIMD_BYTES\<close>.
  An all-false block is passed over, an all-true block is appended by
  \<open>res_data.insert(data_pos, data_pos + SIMD_BYTES)\<close>, and of a mixed block the rows of the
  set bits are pushed one by one. The loop returns the position it stopped at and the
  buffer so far.
\<close>

function filter_sse_loop ::
  "nat \<Rightarrow> UInt8 list \<Rightarrow> 'a list \<Rightarrow> nat \<Rightarrow> 'a PODArray \<Rightarrow> fault + (nat \<times> 'a PODArray)" where
  "filter_sse_loop W filt data pos res_data =
     (if pos < length data div W * W then
        (let bits = bytes_mask_to_bits_mask W filt pos in
         case (if mask_is_zero bits then Inr res_data
               else if mask_is_all bits then Inr (insert_range (take W (drop pos data)) res_data)
               else filter_bits data pos (iterate_through_bits_mask bits) res_data) of
           Inl e \<Rightarrow> Inl e
         | Inr res_data' \<Rightarrow> filter_sse_loop W filt data (pos + W) res_data')
      else Inr (pos, res_data))"
  by pat_completeness auto
termination
proof (relation "measure (\<lambda>(W, filt, data, pos, res_data). length data div W * W - pos)",
    goal_cases)
  case 1
  show ?case by simp
next
  case (2 W filt data pos res_data bits res_data')
  then have "0 < W" by (cases W) simp_all
  with 2 show ?case by simp
qed

declare filter_sse_loop.simps [simp del]

text \<open>The second loop: the trailing partial block, element by element.\<close>

function filter_tail_loop ::
  "UInt8 list \<Rightarrow> 'a list \<Rightarrow> nat \<Rightarrow> 'a PODArray \<Rightarrow> fault + 'a PODArray" where
  "filter_tail_loop filt data pos res_data =
     (if pos < length data then
        (if filt ! pos \<noteq> 0 then
           (case push_back_without_reserve (data ! pos) res_data of
              Inl e \<Rightarrow> Inl e
            | Inr res_data' \<Rightarrow> filter_tail_loop filt data (pos + 1) res_data')
         else filter_tail_loop filt data (pos + 1) res_data)
      else Inr res_data)"
  by pat_completeness auto
termination
  by (relation "measure (\<lambda>(filt, data, pos, res_data). length data - pos)") auto

declare filter_tail_loop.simps [simp del]

text \<open>
  \<open>ColumnPtr filter(const Filter& filt, ssize_t result_size_hint) const\<close>. The method is
  \<open>const\<close>: the column it is called on is an input of the model and never an output.
  The new column is created empty, with no room, and
  \<open>res_data.reserve(result_size_hint > 0 ? result_size_hint : size)\<close> makes the room the
  pushes of the two loops rely on. The result is the content of the new column.
\<close>

definition filter_new :: "nat \<Rightarrow> 'a list \<Rightarrow> UInt8 list \<Rightarrow> int \<Rightarrow> fault + 'a list" where
  "filter_new W data filt result_size_hint =
     (let sz = length data in
      if sz \<noteq> length filt then Inl SizeMismatch
      else
        (let res_data = reserve (if result_size_hint > 0 then nat result_size_hint else sz) ([], 0)
         in case filter_sse_loop W filt data 0 res_data of
              Inl e \<Rightarrow> Inl e
            | Inr (pos, res_data1) \<Rightarrow>
                (case filter_tail_loop filt data pos res_data1 of
                   Inl e \<Rightarrow> Inl e
                 | Inr res_data2 \<Rightarrow> Inr (fst res_data2))))"

text \<open>
  The words of the spec: the number of true entries of a mask, and the positions of its
  true entries in ascending order, so that the \<open>i\<close>-th true entry is at position
  \<open>true_positions m ! i\<close>.
\<close>

definition popcount :: "UInt8 list \<Rightarrow> nat" where
  "popcount m = length (filter (\<lambda>b. b \<noteq> 0) m)"

definition true_positions :: "UInt8 list \<Rightarrow> nat list" where
  "true_positions m = filter (\<lambda>i. m ! i \<noteq> 0) [0..<length m]"

text \<open>
  The rows a filter keeps between two positions: the elements of \<open>data\<close> at the positions
  \<open>a \<le> i < b\<close> whose filter byte is nonzero, in ascending order of \<open>i\<close>. Both forms of
  \<open>filter\<close> are compared with it.
\<close>

definition kept :: "'a list \<Rightarrow> UInt8 list \<Rightarrow> nat \<Rightarrow> nat \<Rightarrow> 'a list" where
  "kept data filt a b = map ((!) data) (filter (\<lambda>i. filt ! i \<noteq> 0) [a..<b])"

text \<open>
  \<open>PODArray::resize(n)\<close>: the first \<open>n\<close> elements are kept and new slots hold the zero bit
  pattern.
\<close>

definition resize :: "nat \<Rightarrow> 'a::zero list \<Rightarrow> 'a list" where
  "resize n xs = take n xs @ replicate (n - length xs) 0"

text \<open>
  \<open>memmove(dst, src, sizeof(T) * n)\<close> inside one buffer, \<open>dst\<close> and \<open>src\<close> being element
  positions of it: the \<open>n\<close> elements from \<open>src\<close> on, as they were before the call, are
  written from \<open>dst\<close> on.
\<close>

definition memmove :: "'a list \<Rightarrow> nat \<Rightarrow> nat \<Rightarrow> nat \<Rightarrow> 'a list" where
  "memmove buf dst src n = take dst buf @ take n (drop src buf) @ drop (dst + n) buf"

text \<open>
  The mixed block of the in-place \<open>filter\<close>: for each set bit \<open>idx\<close>, in ascending order,
  \<open>*result_data = data_pos[idx]; ++result_data\<close>, on the buffer being compacted.
\<close>

definition filter_inplace_bits :: "nat list \<Rightarrow> nat \<Rightarrow> 'a list \<times> nat \<Rightarrow> 'a list \<times> nat" where
  "filter_inplace_bits idxs pos st =
     fold (\<lambda>idx (data, result_data). (data[result_data := data ! (pos + idx)], result_data + 1))
       idxs st"

text \<open>
  The first loop of \<open>size_t filter(const Filter& filter)\<close>. The state is the buffer, the
  read position (\<open>filter_pos\<close> and \<open>data_pos\<close> advance together) and the write position
  \<open>result_data\<close>; \<open>sz\<close> is \<open>data.size()\<close> on entry.
\<close>

function filter_inplace_sse_loop ::
  "nat \<Rightarrow> UInt8 list \<Rightarrow> nat \<Rightarrow> 'a list \<Rightarrow> nat \<Rightarrow> nat \<Rightarrow> 'a list \<times> nat \<times> nat" where
  "filter_inplace_sse_loop W filt sz data pos result_data =
     (if pos < sz div W * W then
        (let bits = bytes_mask_to_bits_mask W filt pos in
         if mask_is_zero bits then
           filter_inplace_sse_loop W filt sz data (pos + W) result_data
         else if mask_is_all bits then
           filter_inplace_sse_loop W filt sz (memmove data result_data pos W) (pos + W)
             (result_data + W)
         else
           (let (data', result_data') =
                  filter_inplace_bits (iterate_through_bits_mask bits) pos (data, result_data)
            in filter_inplace_sse_loop W filt sz data' (pos + W) result_data'))
      else (data, pos, result_data))"
  by pat_completeness auto
termination
proof (relation "measure (\<lambda>(W, filt, sz, data, pos, result_data). sz div W * W - pos)",
    goal_cases)
  case 1
  show ?case by simp
next
  case (2 W filt sz data pos result_data bits)
  then have "0 < W" by (cases W) simp_all
  with 2 show ?case by simp
next
  case (3 W filt sz data pos result_data bits)
  then have "0 < W" by (cases W) simp_all
  with 3 show ?case by simp
next
  case (4 W filt sz data pos result_data bits st data' result_data')
  then have "0 < W" by (cases W) simp_all
  with 4 show ?case by simp
qed

declare filter_inplace_sse_loop.simps [simp del]

text \<open>The second loop of the in-place \<open>filter\<close>.\<close>

function filter_inplace_tail_loop ::
  "UInt8 list \<Rightarrow> nat \<Rightarrow> 'a list \<Rightarrow> nat \<Rightarrow> nat \<Rightarrow> 'a list \<times> nat" where
  "filter_inplace_tail_loop filt sz data pos result_data =
     (if pos < sz then
        (if filt ! pos \<noteq> 0 then
           filter_inplace_tail_loop filt sz (data[result_data := data ! pos]) (pos + 1)
             (result_data + 1)
         else filter_inplace_tail_loop filt sz data (pos + 1) result_data)
      else (data, result_data))"
  by pat_completeness auto
termination
  by (relation "measure (\<lambda>(filt, sz, data, pos, result_data). sz - pos)") auto

declare filter_inplace_tail_loop.simps [simp del]

text \<open>
  \<open>size_t filter(const Filter& filter)\<close>: the column after the call and the length it
  returns. \<open>new_size\<close> is \<open>result_data - data.data()\<close>, the write position.
\<close>

definition filter_inplace :: "nat \<Rightarrow> 'a::zero list \<Rightarrow> UInt8 list \<Rightarrow> fault + ('a list \<times> nat)" where
  "filter_inplace W data filt =
     (let sz = length data in
      if sz \<noteq> length filt then Inl SizeMismatch
      else
        (let (data1, pos, result_data1) = filter_inplace_sse_loop W filt sz data 0 0;
             (data2, result_data2) = filter_inplace_tail_loop filt sz data1 pos result_data1;
             new_size = result_data2
         in Inr (resize new_size data2, new_size)))"

text \<open>
  The state of the in-place \<open>filter\<close> between two steps, \<open>data0\<close> being the column on entry:
  the write position is not after the read position, the buffer up to the write position
  holds the rows kept so far, and the buffer from the read position on is still as on
  entry.
\<close>

definition compacted :: "'a list \<Rightarrow> UInt8 list \<Rightarrow> 'a list \<Rightarrow> nat \<Rightarrow> nat \<Rightarrow> bool" where
  "compacted data0 filt data pos result_data \<longleftrightarrow>
     length data = length data0 \<and> result_data \<le> pos \<and> pos \<le> length data0 \<and>
     take result_data data = kept data0 filt 0 pos \<and> drop pos data = drop pos data0"

section \<open>Bulk operations of the column\<close>

subsection \<open>\<open>replace_column_null_data\<close>\<close>

text \<open>
  Modelled from the spec: \<open>simd::count_zero_num\<close> (\<open>util/simd/bits.h\<close>) is not among the
  sources. A null map is "a byte-per-row boolean array"; the helper counts the bytes that
  are zero, the rows that are not null, among the first \<open>s\<close> bytes.
\<close>

definition count_zero_num :: "UInt8 list \<Rightarrow> nat \<Rightarrow> nat" where
  "count_zero_num null_map s = length (filter (\<lambda>b. b = 0) (take s null_map))"

text \<open>The loop \<open>for (size_t i = 0; i < s; ++i) data[i] = null_map[i] ? T() : data[i]\<close>.\<close>

function replace_null_loop :: "UInt8 list \<Rightarrow> nat \<Rightarrow> 'a::zero list \<Rightarrow> nat \<Rightarrow> 'a list" where
  "replace_null_loop null_map s data i =
     (if i < s then
        replace_null_loop null_map s
          (data[i := (if null_map ! i \<noteq> 0 then 0 else data ! i)]) (i + 1)
      else data)"
  by pat_completeness auto
termination
  by (relation "measure (\<lambda>(null_map, s, data, i). s - i)") auto

declare replace_null_loop.simps [simp del]

text \<open>
  \<open>void replace_column_null_data(const uint8_t* null_map)\<close>. The null map is a bare
  pointer; the call reads its first \<open>size()\<close> bytes, so a shorter map is read outside its
  bounds.
\<close>

definition replace_column_null_data :: "'a::zero list \<Rightarrow> UInt8 list \<Rightarrow> fault + 'a list" where
  "replace_column_null_data data null_map =
     (let s = length data in
      if length null_map < s then Inl OutOfBounds
      else
        (let null_count = s - count_zero_num null_map s in
         if 0 = null_count then Inr data
         else Inr (replace_null_loop null_map s data 0)))"

subsection \<open>\<open>insert_range_from\<close>\<close>

text \<open>
  \<open>size_t\<close> is a 64-bit unsigned integer: \<open>start + length\<close> wraps around at \<open>2 ^ 64\<close>.
\<close>

type_synonym size_t = "64 word"

text \<open>
  \<open>memcpy(dst + dpos, &src[spos], n * sizeof(T))\<close> between two buffers, positions and
  count in elements. Reading \<open>src\<close> or writing \<open>dst\<close> past its end is out of bounds.
\<close>

definition memcpy :: "'a list \<Rightarrow> nat \<Rightarrow> 'a list \<Rightarrow> nat \<Rightarrow> nat \<Rightarrow> fault + 'a list" where
  "memcpy dst dpos src spos n =
     (if spos + n \<le> length src \<and> dpos + n \<le> length dst
      then Inr (take dpos dst @ take n (drop spos src) @ drop (dpos + n) dst)
      else Inl OutOfBounds)"

text \<open>
  \<open>void insert_range_from(const IColumn& src, size_t start, size_t length)\<close>: the
  destination column after the call. The test is the one of the source,
  \<open>start + length > src_vec.data.size()\<close>, in \<open>size_t\<close> arithmetic.
\<close>

definition insert_range_from :: "'a::zero list \<Rightarrow> 'a list \<Rightarrow> size_t \<Rightarrow> size_t \<Rightarrow> fault + 'a list" where
  "insert_range_from data src start len =
     (if unat (start + len) > length src then Inl (Exception INTERNAL_ERROR)
      else
        (let old_size = length data;
             data1 = resize (old_size + unat len) data
         in memcpy data1 old_size src (unat start) (unat len)))"

subsection \<open>\<open>permute\<close>\<close>

text \<open>
  The loop \<open>for (size_t i = 0; i < limit; ++i) res_data[i] = data[perm[i]]\<close>. An entry of
  the permutation that is not a row of the column is a read outside the buffer.
\<close>

function permute_loop :: "'a list \<Rightarrow> nat list \<Rightarrow> nat \<Rightarrow> 'a list \<Rightarrow> nat \<Rightarrow> fault + 'a list" where
  "permute_loop data perm limit res_data i =
     (if i < limit then
        (if perm ! i < length data
         then permute_loop data perm limit (res_data[i := data ! (perm ! i)]) (i + 1)
         else Inl OutOfBounds)
      else Inr res_data)"
  by pat_completeness auto
termination
  by (relation "measure (\<lambda>(data, perm, limit, res_data, i). limit - i)") auto

declare permute_loop.simps [simp del]

text \<open>
  \<open>ColumnPtr permute(const Permutation& perm, size_t limit) const\<close>. A permutation shorter
  than the effective limit ends the call with \<open>throw doris::Exception(INTERNAL_ERROR, ...)\<close>.
  Modelled from the spec: \<open>create(limit)\<close> is declared in \<open>column_vector.h\<close>, which is not
  among the sources; "\<open>create(n)\<close>: new column, \<open>size() == n\<close>, all slots holding the domain's
  zero bit pattern".
\<close>

definition permute :: "'a::zero list \<Rightarrow> nat list \<Rightarrow> nat \<Rightarrow> fault + 'a list" where
  "permute data perm limit0 =
     (let sz = length data;
          limit = (if limit0 = 0 then sz else min sz limit0)
      in if length perm < limit then Inl (Exception INTERNAL_ERROR)
         else permute_loop data perm limit (replicate limit 0) 0)"


section \<open>Raw bytes of an element\<close>

text \<open>
  An element of a column of integers is its bit pattern, a word of the width of \<open>T\<close>.
  \<open>sizeof(T)\<close> is the number of its bytes (the widths of the column types are 8, 16, 32,
  64 and 128 bits). \<open>to_bytes\<close> gives the bytes a \<open>memcpy\<close> from \<open>&data[i]\<close> reads, in the
  native order of the platforms the engine runs on, least significant byte first;
  \<open>from_bytes\<close> is the load from such bytes.
\<close>

definition sizeof :: "'a::len itself \<Rightarrow> nat" where
  "sizeof t = (len_of t + 7) div 8"

fun to_bytes :: "nat \<Rightarrow> 'a::len word \<Rightarrow> UInt8 list" where
  "to_bytes 0 x = []"
| "to_bytes (Suc n) x = ucast x # to_bytes n (drop_bit 8 x)"

fun from_bytes :: "UInt8 list \<Rightarrow> 'a::len word" where
  "from_bytes [] = 0"
| "from_bytes (b # bs) = ucast b OR push_bit 8 (from_bytes bs)"

definition raw_bytes :: "'a::len word \<Rightarrow> UInt8 list" where
  "raw_bytes x = to_bytes (sizeof TYPE('a)) x"


section \<open>The protocol-buffer converter: \<open>DataTypeNumberSerDe<T>\<close>\<close>

text \<open>
  The element types \<open>T\<close> the column is instantiated for (the explicit instantiations at the
  end of \<open>column_vector.cpp\<close>); the converter dispatches on \<open>T\<close> with \<open>if constexpr\<close>.
\<close>

datatype NumberType =
    T_UInt8 | T_UInt16 | T_UInt32 | T_UInt64 | T_UInt128
  | T_Int8 | T_Int16 | T_Int32 | T_Int64 | T_Int128
  | T_Float32 | T_Float64 | T_IPv6

text \<open>
  \<open>Status\<close>: the value a converter returns to its caller. The ids of \<open>PGenericType\<close> are
  those the converter sets.
\<close>

datatype Status = OK | NotSupported string

datatype TypeId =
    UINT8 | UINT16 | UINT32 | UINT64 | INT8 | INT16 | INT32 | INT64 | INT128 | FLOAT | DOUBLE

text \<open>
  The fields of the message \<open>PValues\<close> that the converter touches. \<open>has_type\<close> is set by
  \<open>mutable_type()\<close>, \<open>type_id\<close> by \<open>set_id\<close>. An element of a column is kept as its numeric
  value; a floating value is copied unchanged between column and message, and is kept as
  the integer of its bit pattern.
\<close>

record PValues =
  has_type :: bool
  type_id :: "TypeId option"
  uint32_value :: "int list"
  int32_value :: "int list"
  uint64_value :: "int list"
  int64_value :: "int list"
  float_value :: "int list"
  double_value :: "int list"
  bytes_value :: "UInt8 list list"

text \<open>
  \<open>cast_set<T, uint32_t, false>\<close> and \<open>cast_set<T, int32_t, false>\<close>: with the check switched
  off, the conversion of C++ to an unsigned or signed type of \<open>bits\<close> bits.
\<close>

definition cast_unsigned :: "nat \<Rightarrow> int \<Rightarrow> int" where
  "cast_unsigned bits v = v mod 2 ^ bits"

definition cast_signed :: "nat \<Rightarrow> int \<Rightarrow> int" where
  "cast_signed bits v = (v + 2 ^ (bits - 1)) mod 2 ^ bits - 2 ^ (bits - 1)"

text \<open>
  \<open>*(int128_t*)(arg.bytes_value(i).c_str())\<close>: sixteen bytes are read from the string; a
  shorter string is read past its end.
\<close>

fun read_int128s :: "UInt8 list list \<Rightarrow> fault + int list" where
  "read_int128s [] = Inr []"
| "read_int128s (bs # rest) =
     (if length bs < 16 then Inl OutOfBounds
      else (case read_int128s rest of
              Inl e \<Rightarrow> Inl e
            | Inr vs \<Rightarrow> Inr (sint (from_bytes (take 16 bs) :: 128 word) # vs)))"

text \<open>
  \<open>Status read_column_from_pb(IColumn& column, const PValues& arg) const\<close>: the status
  and the column after the call. Every branch resizes the column by the number of values
  and stores value \<open>i\<close> at \<open>old_column_size + i\<close>, which appends the values in order.
\<close>

definition read_column_from_pb :: "NumberType \<Rightarrow> int list \<Rightarrow> PValues \<Rightarrow> fault + (Status \<times> int list)" where
  "read_column_from_pb T column arg =
     (if T = T_UInt8 \<or> T = T_UInt16 then
        Inr (OK, column @ map (cast_unsigned (if T = T_UInt8 then 8 else 16)) (uint32_value arg))
      else if T = T_UInt32 then Inr (OK, column @ uint32_value arg)
      else if T = T_Int8 \<or> T = T_Int16 then
        Inr (OK, column @ map (cast_signed (if T = T_Int8 then 8 else 16)) (int32_value arg))
      else if T = T_Int32 then Inr (OK, column @ int32_value arg)
      else if T = T_UInt64 then Inr (OK, column @ uint64_value arg)
      else if T = T_Int64 then Inr (OK, column @ int64_value arg)
      else if T = T_Float32 then Inr (OK, column @ float_value arg)
      else if T = T_Float64 then Inr (OK, column @ double_value arg)
      else if T = T_Int128 then
        (case read_int128s (bytes_value arg) of
           Inl e \<Rightarrow> Inl e
         | Inr vs \<Rightarrow> Inr (OK, column @ vs))
      else Inr (NotSupported ''unknown ColumnType for reading from pb'', column))"

text \<open>
  The rows \<open>data.begin() + start\<close> to \<open>data.begin() + end\<close> that \<open>values->Add\<close> copies.
\<close>

definition rows_between :: "int list \<Rightarrow> int \<Rightarrow> int \<Rightarrow> fault + int list" where
  "rows_between column start end =
     (if 0 \<le> start \<and> start \<le> end \<and> end \<le> int (length column)
      then Inr (take (nat (end - start)) (drop (nat start) column))
      else Inl OutOfBounds)"

text \<open>
  The loop for \<open>Int128\<close>, \<open>for (size_t row_num = start; row_num < end; ++row_num)\<close>.
  \<open>start\<close> and \<open>end\<close> are \<open>int64_t\<close> and \<open>row_num\<close> is \<open>size_t\<close>: \<open>start\<close> is converted to
  \<open>size_t\<close> on entry, and the test compares \<open>row_num\<close> with \<open>end\<close> converted to \<open>size_t\<close>,
  both conversions modulo \<open>2 ^ 64\<close>. \<open>col->get_data_at(row_num)\<close> reads row \<open>row_num\<close> of
  the column, which from \<open>size()\<close> on is outside its buffer.
\<close>

function rows_loop_from :: "int list \<Rightarrow> nat \<Rightarrow> nat \<Rightarrow> fault + int list" where
  "rows_loop_from column row_num end_row =
     (if row_num < end_row then
        (if row_num < length column then
           (case rows_loop_from column (row_num + 1) end_row of
              Inl e \<Rightarrow> Inl e
            | Inr vs \<Rightarrow> Inr (column ! row_num # vs))
         else Inl OutOfBounds)
      else Inr [])"
  by pat_completeness auto
termination
  by (relation "measure (\<lambda>(column, row_num, end_row). end_row - row_num)") auto

declare rows_loop_from.simps [simp del]

definition rows_loop :: "int list \<Rightarrow> int \<Rightarrow> int \<Rightarrow> fault + int list" where
  "rows_loop column start end =
     rows_loop_from column (nat (start mod 2 ^ 64)) (nat (end mod 2 ^ 64))"

text \<open>
  \<open>Status write_column_to_pb(const IColumn& column, PValues& result, int64_t start,
  int64_t end) const\<close>: the status and the message after the call. \<open>cast_set<int>\<close>
  (\<open>common/cast_set.h\<close>) is not among the sources: it is the parameter \<open>cast_set_int\<close>, a
  checked narrowing that returns the \<open>int\<close> or ends the call. \<open>Reserve(row_count)\<close> changes
  the capacity of a field only.
\<close>

definition write_column_to_pb ::
  "(int \<Rightarrow> fault + int) \<Rightarrow> NumberType \<Rightarrow> int list \<Rightarrow> PValues \<Rightarrow> int \<Rightarrow> int \<Rightarrow> fault + (Status \<times> PValues)" where
  "write_column_to_pb cast_set_int T column result start end =
     (case cast_set_int (end - start) of
        Inl e \<Rightarrow> Inl e
      | Inr row_count \<Rightarrow>
         (let result1 = result\<lparr>has_type := True\<rparr>;
              add = (\<lambda>id put.
                 (case rows_between column start end of
                    Inl e \<Rightarrow> Inl e
                  | Inr vs \<Rightarrow> Inr (OK, put vs (result1\<lparr>type_id := Some id\<rparr>))))
          in
          if T = T_Int128 then
            (case rows_loop column start end of
               Inl e \<Rightarrow> Inl e
             | Inr vs \<Rightarrow>
                Inr (OK, result1\<lparr>type_id := Some INT128,
                       bytes_value := bytes_value result1
                         @ map (\<lambda>v. to_bytes 16 (word_of_int v :: 128 word)) vs\<rparr>))
          else if T = T_UInt8 then
            add UINT8 (\<lambda>vs r. r\<lparr>uint32_value := uint32_value r @ vs\<rparr>)
          else if T = T_UInt16 then
            add UINT16 (\<lambda>vs r. r\<lparr>uint32_value := uint32_value r @ vs\<rparr>)
          else if T = T_UInt32 then
            add UINT32 (\<lambda>vs r. r\<lparr>uint32_value := uint32_value r @ vs\<rparr>)
          else if T = T_UInt64 then
            add UINT64 (\<lambda>vs r. r\<lparr>uint64_value := uint64_value r @ vs\<rparr>)
          else if T = T_Int8 then
            add INT8 (\<lambda>vs r. r\<lparr>int32_value := int32_value r @ vs\<rparr>)
          else if T = T_Int16 then
            add INT16 (\<lambda>vs r. r\<lparr>int32_value := int32_value r @ vs\<rparr>)
          else if T = T_Int32 then
            add INT32 (\<lambda>vs r. r\<lparr>int32_value := int32_value r @ vs\<rparr>)
          else if T = T_Int64 then
            add INT64 (\<lambda>vs r. r\<lparr>int64_value := int64_value r @ vs\<rparr>)
          else if T = T_Float32 then
            add FLOAT (\<lambda>vs r. r\<lparr>float_value := float_value r @ vs\<rparr>)
          else if T = T_Float64 then
            add DOUBLE (\<lambda>vs r. r\<lparr>double_value := double_value r @ vs\<rparr>)
          else Inr (NotSupported ''unknown ColumnType for writing to pb'', result1)))"


section \<open>The content hasher: \<open>update_crcs_with_value\<close>\<close>

text \<open>
  The tags of \<open>PrimitiveType\<close> (\<open>runtime/define_primitive_type.h\<close>, not among the sources)
  that name the element domains of the columns; \<open>update_crcs_with_value\<close> compares the tag
  with \<open>TYPE_DATE\<close> and \<open>TYPE_DATETIME\<close> only.
\<close>

datatype PrimitiveType =
    TYPE_BOOLEAN | TYPE_TINYINT | TYPE_SMALLINT | TYPE_INT | TYPE_BIGINT | TYPE_LARGEINT
  | TYPE_FLOAT | TYPE_DOUBLE | TYPE_DATE | TYPE_DATETIME | TYPE_DATEV2 | TYPE_DATETIMEV2
  | TYPE_IPV4 | TYPE_IPV6

text \<open>A loop \<open>for (size_t i = 0; i < s; i++) body(i)\<close> over a state.\<close>

function for_loop :: "nat \<Rightarrow> nat \<Rightarrow> (nat \<Rightarrow> 's \<Rightarrow> 's) \<Rightarrow> 's \<Rightarrow> 's" where
  "for_loop i s body st = (if i < s then for_loop (i + 1) s body (body i st) else st)"
  by pat_completeness auto
termination
  by (relation "measure (\<lambda>(i, s, body, st). s - i)") auto

declare for_loop.simps [simp del]

text \<open>
  The checksum \<open>HashUtil::zlib_crc_hash(bytes, len, seed)\<close> (\<open>util/hash_util.hpp\<close>) and the
  rendering \<open>VecDateTimeValue::to_buffer\<close> of the value that the bits of an element encode
  are not among the sources: they are the parameters \<open>zlib_crc_hash\<close> and \<open>to_buffer\<close>, the
  latter giving the \<open>len\<close> characters written to \<open>buf\<close>.

  The lambda \<open>date_convert_do_crc\<close> of the source:
\<close>

definition date_convert_do_crc ::
  "(UInt8 list \<Rightarrow> 32 word \<Rightarrow> 32 word) \<Rightarrow> ('a \<Rightarrow> UInt8 list) \<Rightarrow> 'a list \<Rightarrow> nat \<Rightarrow> 32 word list \<Rightarrow> 32 word list" where
  "date_convert_do_crc zlib_crc_hash to_buffer data i hashes =
     hashes[i := zlib_crc_hash (to_buffer (data ! i)) (hashes ! i)]"

text \<open>
  Modelled from the spec: the macro \<open>DO_CRC_HASHES_FUNCTION_COLUMN_IMPL\<close> is defined in a
  header that is not among the sources. It is the "same per-row mixing pattern" as
  \<open>update_hashes_with_value\<close>, "with a checksum-style hash": for every row, "if a null map
  is supplied and marks the row null", the accumulator of the row is left untouched, and
  otherwise the \<open>sizeof(T)\<close> raw bytes of the element are mixed into \<open>hashes[i]\<close>, seeded
  with its current value.
\<close>

definition DO_CRC_HASHES_FUNCTION_COLUMN_IMPL ::
  "(UInt8 list \<Rightarrow> 32 word \<Rightarrow> 32 word) \<Rightarrow> 'a::len word list \<Rightarrow> nat \<Rightarrow> UInt8 list option \<Rightarrow> 32 word list \<Rightarrow> 32 word list" where
  "DO_CRC_HASHES_FUNCTION_COLUMN_IMPL zlib_crc_hash data s null_data hashes =
     (case null_data of
        None \<Rightarrow>
          for_loop 0 s (\<lambda>i hs. hs[i := zlib_crc_hash (raw_bytes (data ! i)) (hs ! i)]) hashes
      | Some null_map \<Rightarrow>
          for_loop 0 s
            (\<lambda>i hs. if null_map ! i = 0
                     then hs[i := zlib_crc_hash (raw_bytes (data ! i)) (hs ! i)] else hs)
            hashes)"

text \<open>
  \<open>void update_crcs_with_value(uint32_t* hashes, PrimitiveType type, uint32_t rows,
  uint32_t offset, const uint8_t* null_data) const\<close>: the array \<open>hashes\<close> after the call.
  \<open>T\<close> is the element type of the column, tested by \<open>std::is_same_v<T, Int64>\<close>; \<open>offset\<close>
  is not used. \<open>hashes\<close> and \<open>null_data\<close> are bare pointers and the loops run over \<open>rows\<close>
  rows (\<open>DCHECK(s == size())\<close> is compiled out of a release build), so an array shorter
  than \<open>rows\<close> is accessed outside its bounds.
\<close>

definition update_crcs_with_value ::
  "(UInt8 list \<Rightarrow> 32 word \<Rightarrow> 32 word) \<Rightarrow> ('a::len word \<Rightarrow> UInt8 list) \<Rightarrow> NumberType \<Rightarrow> 'a word list \<Rightarrow>
   32 word list \<Rightarrow> PrimitiveType \<Rightarrow> nat \<Rightarrow> nat \<Rightarrow> UInt8 list option \<Rightarrow> fault + 32 word list" where
  "update_crcs_with_value zlib_crc_hash to_buffer T data hashes type rows offset null_data =
     (let s = rows in
      if length data < s \<or> length hashes < s
         \<or> (case null_data of None \<Rightarrow> False | Some null_map \<Rightarrow> length null_map < s)
      then Inl OutOfBounds
      else if T \<noteq> T_Int64 then
        Inr (DO_CRC_HASHES_FUNCTION_COLUMN_IMPL zlib_crc_hash data s null_data hashes)
      else if type = TYPE_DATE \<or> type = TYPE_DATETIME then
        (case null_data of
           None \<Rightarrow>
             Inr (for_loop 0 s (date_convert_do_crc zlib_crc_hash to_buffer data) hashes)
         | Some null_map \<Rightarrow>
             Inr (for_loop 0 s
                   (\<lambda>i hs. if null_map ! i = 0
                            then date_convert_do_crc zlib_crc_hash to_buffer data i hs else hs)
                   hashes))
      else Inr (DO_CRC_HASHES_FUNCTION_COLUMN_IMPL zlib_crc_hash data s null_data hashes))"


section \<open>The arena codec: vectorized serialization with a null map\<close>

text \<open>
  A \<open>StringRef\<close> is a pointer \<open>data\<close> into a buffer the caller owns and a length \<open>size\<close>.
  \<open>ref_data\<close> is the content of that buffer from the address \<open>data\<close> to its end, and
  \<open>ref_size\<close> is \<open>size\<close>, a \<open>size_t\<close> kept as a natural number with the wrap-around at
  \<open>2 ^ 64\<close> written out. The bytes the reference denotes are the first \<open>ref_size\<close> bytes of
  \<open>ref_data\<close>. Writing at \<open>data + size\<close> writes at offset \<open>ref_size\<close>; advancing \<open>data\<close> drops
  bytes from the front of \<open>ref_data\<close>.
\<close>

record StringRef =
  ref_data :: "UInt8 list"
  ref_size :: nat

text \<open>
  \<open>memcpy(dest, bytes, n)\<close> into a buffer at an offset; writing past the end of the buffer
  is out of bounds.
\<close>

definition write_at :: "UInt8 list \<Rightarrow> nat \<Rightarrow> UInt8 list \<Rightarrow> fault + UInt8 list" where
  "write_at buf off bs =
     (if off + length bs \<le> length buf
      then Inr (take off buf @ bs @ drop (off + length bs) buf)
      else Inl OutOfBounds)"

text \<open>
  Modelled from the spec: \<open>simd::contain_byte\<close> (\<open>util/simd/bits.h\<close>) is not among the
  sources. \<open>contain_byte(null_map, num_rows, 1)\<close> tells whether one of the first
  \<open>num_rows\<close> flags of the null map is the flag \<open>1\<close> of a null row ("1 = null").
\<close>

definition contain_byte :: "UInt8 list \<Rightarrow> nat \<Rightarrow> UInt8 \<Rightarrow> bool" where
  "contain_byte bytes n b = (b \<in> set (take n bytes))"

text \<open>
  The body of the loop of \<open>serialize_vec_with_null_map\<close> when the null map has a null row.
  The new length is \<open>size + sizeof(UInt8) + (1 - null_map[i]) * sizeof(T)\<close>, where
  \<open>1 - null_map[i]\<close> is an \<open>int\<close> and the rest is \<open>size_t\<close> arithmetic.
\<close>

definition serialize_row_has_null ::
  "UInt8 list \<Rightarrow> 'a::len word list \<Rightarrow> nat \<Rightarrow> StringRef \<Rightarrow> fault + StringRef" where
  "serialize_row_has_null null_map data i key =
     (let dest = ref_size key in
      case write_at (ref_data key) dest [null_map ! i] of
        Inl e \<Rightarrow> Inl e
      | Inr buf1 \<Rightarrow>
          (case (if null_map ! i = 0
                 then (if i < length data then write_at buf1 (dest + 1) (raw_bytes (data ! i))
                       else Inl OutOfBounds)
                 else Inr buf1) of
             Inl e \<Rightarrow> Inl e
           | Inr buf2 \<Rightarrow>
               Inr \<lparr>ref_data = buf2,
                    ref_size = nat ((int (ref_size key) + 1
                                + (1 - uint (null_map ! i)) * int (sizeof TYPE('a))) mod 2 ^ 64)\<rparr>))"

text \<open>The body of the loop when no row is null: \<open>memset(dest, 0, 1)\<close>, then the value.\<close>

definition serialize_row_no_null ::
  "'a::len word list \<Rightarrow> nat \<Rightarrow> StringRef \<Rightarrow> fault + StringRef" where
  "serialize_row_no_null data i key =
     (let dest = ref_size key in
      case write_at (ref_data key) dest [0] of
        Inl e \<Rightarrow> Inl e
      | Inr buf1 \<Rightarrow>
          (case (if i < length data then write_at buf1 (dest + 1) (raw_bytes (data ! i))
                 else Inl OutOfBounds) of
             Inl e \<Rightarrow> Inl e
           | Inr buf2 \<Rightarrow>
               Inr \<lparr>ref_data = buf2,
                    ref_size = (ref_size key + sizeof TYPE('a) + 1) mod 2 ^ 64\<rparr>))"

text \<open>The loop \<open>for (size_t i = 0; i < num_rows; ++i)\<close> over \<open>keys[i]\<close>.\<close>

function serialize_loop ::
  "(nat \<Rightarrow> StringRef \<Rightarrow> fault + StringRef) \<Rightarrow> nat \<Rightarrow> nat \<Rightarrow> StringRef list \<Rightarrow> fault + StringRef list" where
  "serialize_loop row i num_rows keys =
     (if i < num_rows then
        (if i < length keys then
           (case row i (keys ! i) of
              Inl e \<Rightarrow> Inl e
            | Inr key \<Rightarrow> serialize_loop row (i + 1) num_rows (keys[i := key]))
         else Inl OutOfBounds)
      else Inr keys)"
  by pat_completeness auto
termination
  by (relation "measure (\<lambda>(row, i, num_rows, keys). num_rows - i)") auto

declare serialize_loop.simps [simp del]

text \<open>
  \<open>void serialize_vec_with_null_map(std::vector<StringRef>& keys, size_t num_rows,
  const UInt8* null_map) const\<close>: the references after the call. \<open>contain_byte\<close> reads the
  first \<open>num_rows\<close> bytes of the null map.
\<close>

definition serialize_vec_with_null_map ::
  "'a::len word list \<Rightarrow> StringRef list \<Rightarrow> nat \<Rightarrow> UInt8 list \<Rightarrow> fault + StringRef list" where
  "serialize_vec_with_null_map data keys num_rows null_map =
     (if length null_map < num_rows then Inl OutOfBounds
      else
        (let has_null = contain_byte null_map num_rows 1 in
         if has_null then serialize_loop (serialize_row_has_null null_map data) 0 num_rows keys
         else serialize_loop (serialize_row_no_null data) 0 num_rows keys))"

text \<open>
  \<open>const char* deserialize_and_insert_from_arena(const char* pos)\<close>: \<open>pos\<close> is given by
  the bytes from that address on; the column after the push and the bytes from the
  returned address on.
\<close>

definition deserialize_and_insert_from_arena ::
  "'a::len word list \<Rightarrow> UInt8 list \<Rightarrow> fault + ('a word list \<times> UInt8 list)" where
  "deserialize_and_insert_from_arena data pos =
     (if length pos < sizeof TYPE('a) then Inl OutOfBounds
      else Inr (data @ [from_bytes (take (sizeof TYPE('a)) pos)], drop (sizeof TYPE('a)) pos))"

text \<open>
  The loop of \<open>deserialize_vec_with_null_map\<close>. \<open>insert_default()\<close> pushes \<open>T()\<close>, the zero
  of the domain. \<open>keys[i].size -= sizeof(T)\<close> is \<open>size_t\<close> arithmetic.
\<close>

function deserialize_null_loop ::
  "UInt8 list \<Rightarrow> nat \<Rightarrow> nat \<Rightarrow> 'a::len word list \<Rightarrow> StringRef list \<Rightarrow>
   fault + ('a word list \<times> StringRef list)" where
  "deserialize_null_loop null_map i num_rows data keys =
     (if i < num_rows then
        (if null_map ! i = 0 then
           (if i < length keys then
              (case deserialize_and_insert_from_arena data (ref_data (keys ! i)) of
                 Inl e \<Rightarrow> Inl e
               | Inr (data', pos') \<Rightarrow>
                   deserialize_null_loop null_map (i + 1) num_rows data'
                     (keys[i := \<lparr>ref_data = pos',
                                  ref_size = nat ((int (ref_size (keys ! i))
                                               - int (sizeof TYPE('a))) mod 2 ^ 64)\<rparr>]))
            else Inl OutOfBounds)
         else deserialize_null_loop null_map (i + 1) num_rows (data @ [0]) keys)
      else Inr (data, keys))"
  by pat_completeness auto
termination
  by (relation "measure (\<lambda>(null_map, i, num_rows, data, keys). num_rows - i)") auto

declare deserialize_null_loop.simps [simp del]

text \<open>
  \<open>void deserialize_vec_with_null_map(std::vector<StringRef>& keys, const size_t num_rows,
  const uint8_t* null_map)\<close>: the column and the references after the call.
\<close>

definition deserialize_vec_with_null_map ::
  "'a::len word list \<Rightarrow> StringRef list \<Rightarrow> nat \<Rightarrow> UInt8 list \<Rightarrow>
   fault + ('a word list \<times> StringRef list)" where
  "deserialize_vec_with_null_map data keys num_rows null_map =
     (if length null_map < num_rows then Inl OutOfBounds
      else deserialize_null_loop null_map 0 num_rows data keys)"

text \<open>
  The words of the spec. The bytes a reference denotes, and the reference a caller holds
  for a row after it has consumed the 1-byte flag that \<open>serialize_vec_with_null_map\<close>
  wrote behind the content \<open>before\<close>: it starts at the value bytes and its length is what
  was written after the flag.
\<close>

definition ref_bytes :: "StringRef \<Rightarrow> UInt8 list" where
  "ref_bytes key = take (ref_size key) (ref_data key)"

definition after_flag :: "StringRef \<Rightarrow> StringRef \<Rightarrow> StringRef" where
  "after_flag before after =
     \<lparr>ref_data = drop (ref_size before + 1) (ref_data after),
      ref_size = ref_size after - (ref_size before + 1)\<rparr>"

text \<open>A reference after the bytes \<open>bs\<close> have been appended to what it denotes.\<close>

definition appended :: "StringRef \<Rightarrow> UInt8 list \<Rightarrow> StringRef" where
  "appended key bs =
     \<lparr>ref_data = take (ref_size key) (ref_data key) @ bs
                   @ drop (ref_size key + length bs) (ref_data key),
      ref_size = ref_size key + length bs\<rparr>"

text \<open>
  What \<open>serialize_vec_with_null_map\<close> appends for a row: the flag, and the value bytes
  when the flag is 0.
\<close>

definition row_bytes :: "UInt8 \<Rightarrow> 'a::len word \<Rightarrow> UInt8 list" where
  "row_bytes flag x = flag # (if flag = 0 then raw_bytes x else [])"


section \<open>The permutation engine: \<open>get_permutation\<close>\<close>

text \<open>
  An element as the comparator sees it: a number, or the not-a-number value of a floating
  column. Numbers compare by the order of their type; a column of integers has no \<open>NaN\<close>.
\<close>

datatype 'a number = Num 'a | NaN

text \<open>
  Modelled from the spec: \<open>CompareHelper<T>\<close> is declared in \<open>column_vector.h\<close>, which is not
  among the sources. "Comparator: numeric \<open><\<close>/\<open>>\<close> with an explicit \<open>nan_tiebreak\<close> parameter
  controlling where NaN/invalid values sort (as greatest or as least)": with a positive
  hint a \<open>NaN\<close> is greater than every number, with a negative hint it is less than every
  number, and two \<open>NaN\<close> are never less or greater than one another.
\<close>

fun CompareHelper_less :: "'a::linorder number \<Rightarrow> 'a number \<Rightarrow> int \<Rightarrow> bool" where
  "CompareHelper_less NaN NaN nan_direction_hint = False"
| "CompareHelper_less NaN (Num b) nan_direction_hint = (nan_direction_hint < 0)"
| "CompareHelper_less (Num a) NaN nan_direction_hint = (nan_direction_hint > 0)"
| "CompareHelper_less (Num a) (Num b) nan_direction_hint = (a < b)"

fun CompareHelper_greater :: "'a::linorder number \<Rightarrow> 'a number \<Rightarrow> int \<Rightarrow> bool" where
  "CompareHelper_greater NaN NaN nan_direction_hint = False"
| "CompareHelper_greater NaN (Num b) nan_direction_hint = (nan_direction_hint > 0)"
| "CompareHelper_greater (Num a) NaN nan_direction_hint = (nan_direction_hint < 0)"
| "CompareHelper_greater (Num a) (Num b) nan_direction_hint = (a > b)"

text \<open>
  The comparators \<open>ColumnVector<T>::less\<close> and \<open>ColumnVector<T>::greater\<close>: they compare two
  row indices by the elements of the column at these rows.
\<close>

definition less_cmp :: "'a::linorder number list \<Rightarrow> int \<Rightarrow> nat \<Rightarrow> nat \<Rightarrow> bool" where
  "less_cmp data nan_direction_hint lhs rhs =
     CompareHelper_less (data ! lhs) (data ! rhs) nan_direction_hint"

definition greater_cmp :: "'a::linorder number list \<Rightarrow> int \<Rightarrow> nat \<Rightarrow> nat \<Rightarrow> bool" where
  "greater_cmp data nan_direction_hint lhs rhs =
     CompareHelper_greater (data ! lhs) (data ! rhs) nan_direction_hint"

text \<open>
  \<open>static_cast<double>(n)\<close> for a \<open>size_t\<close>: the value of the nearest double, ties to the
  even significand. A double has 53 significant bits, so the conversion is exact below
  \<open>2 ^ 53\<close>; above, the value is rounded to a multiple of \<open>2 ^ e\<close>, where \<open>e\<close> is the number
  of bits of \<open>n\<close> beyond 53.
\<close>

definition to_double :: "nat \<Rightarrow> nat" where
  "to_double n =
     (if n < 2 ^ 53 then n
      else
        (let e = floorlog 2 n - 53; q = n div 2 ^ e; r = n mod 2 ^ e
         in (if 2 ^ e < 2 * r \<or> (2 * r = 2 ^ e \<and> odd q) then q + 1 else q) * 2 ^ e))"

text \<open>
  Modelled from the spec: \<open>pdqsort\<close> (\<open>pdqsort.h\<close>) and \<open>std::partial_sort\<close> are library
  routines that are not among the sources. Both sort a range in place and require of
  the comparator that it be a strict weak ordering on the range; they promise nothing
  otherwise. The result of \<open>pdqsort\<close> is "a full unstable sort of all row indices by a
  comparator over element values (ties broken arbitrarily -- not stability-preserving)":
  some arrangement of the range in which no element is followed by one that compares less.
  The result of \<open>std::partial_sort\<close> with the middle at \<open>limit\<close> is "a partial sort that only
  orders the top \<open>limit\<close> indices correctly; the remaining indices are present but in
  unspecified relative order": some arrangement of the range whose first \<open>limit\<close> elements
  are in order and none of whose other elements compares less than one of these.
\<close>

definition strict_weak_ordering :: "(nat \<Rightarrow> nat \<Rightarrow> bool) \<Rightarrow> nat list \<Rightarrow> bool" where
  "strict_weak_ordering cmp xs \<longleftrightarrow>
     (\<forall>a\<in>set xs. \<not> cmp a a) \<and>
     (\<forall>a\<in>set xs. \<forall>b\<in>set xs. \<forall>c\<in>set xs. cmp a b \<and> cmp b c \<longrightarrow> cmp a c) \<and>
     (\<forall>a\<in>set xs. \<forall>b\<in>set xs. \<forall>c\<in>set xs. \<not> cmp a b \<and> \<not> cmp b c \<longrightarrow> \<not> cmp a c)"

definition ordered_by :: "(nat \<Rightarrow> nat \<Rightarrow> bool) \<Rightarrow> nat list \<Rightarrow> bool" where
  "ordered_by cmp xs = sorted_wrt (\<lambda>a b. \<not> cmp b a) xs"

definition pdqsort :: "(nat \<Rightarrow> nat \<Rightarrow> bool) \<Rightarrow> nat list \<Rightarrow> nat list \<Rightarrow> bool" where
  "pdqsort cmp xs ys \<longleftrightarrow>
     (strict_weak_ordering cmp xs \<longrightarrow> mset ys = mset xs \<and> ordered_by cmp ys)"

definition partial_sort :: "(nat \<Rightarrow> nat \<Rightarrow> bool) \<Rightarrow> nat \<Rightarrow> nat list \<Rightarrow> nat list \<Rightarrow> bool" where
  "partial_sort cmp middle xs ys \<longleftrightarrow>
     (strict_weak_ordering cmp xs \<longrightarrow>
        mset ys = mset xs \<and> ordered_by cmp (take middle ys) \<and>
        (\<forall>a\<in>set (take middle ys). \<forall>b\<in>set (drop middle ys). \<not> cmp b a))"

text \<open>
  \<open>void get_permutation(bool reverse, size_t limit, int nan_direction_hint,
  Permutation& res) const\<close>, as the relation between the arguments and the permutations
  \<open>res\<close> that the call may leave: the sorts are unstable, so the arguments do not fix the
  result. \<open>res\<close> is resized to \<open>s\<close> and filled with \<open>0, 1, ..., s - 1\<close> before it is sorted.
  The test \<open>static_cast<double>(limit) > static_cast<double>(s) / 8.0\<close> is on doubles; the
  division by 8 of a double that is at least 1 is exact, so the test is
  \<open>to_double s < 8 * to_double limit\<close>.
\<close>

definition get_permutation ::
  "'a::linorder number list \<Rightarrow> bool \<Rightarrow> nat \<Rightarrow> int \<Rightarrow> nat list \<Rightarrow> bool" where
  "get_permutation data reverse limit0 nan_direction_hint res \<longleftrightarrow>
     (let s = length data in
      if s = 0 then res = []
      else
        (let limit = (if to_double s < 8 * to_double limit0 then 0 else limit0);
             iota = [0..<s]
         in if limit \<noteq> 0 then
              (if reverse
               then partial_sort (greater_cmp data nan_direction_hint) limit iota res
               else partial_sort (less_cmp data nan_direction_hint) limit iota res)
            else
              (if reverse
               then pdqsort (greater_cmp data nan_direction_hint) iota res
               else pdqsort (less_cmp data nan_direction_hint) iota res)))"

text \<open>
  An insertion sort by a comparator, to show that the arrangements the library routines
  promise exist.
\<close>

fun insert_by :: "(nat \<Rightarrow> nat \<Rightarrow> bool) \<Rightarrow> nat \<Rightarrow> nat list \<Rightarrow> nat list" where
  "insert_by cmp x [] = [x]"
| "insert_by cmp x (y # ys) = (if cmp y x then y # insert_by cmp x ys else x # y # ys)"

fun sort_by :: "(nat \<Rightarrow> nat \<Rightarrow> bool) \<Rightarrow> nat list \<Rightarrow> nat list" where
  "sort_by cmp [] = []"
| "sort_by cmp (x # xs) = insert_by cmp x (sort_by cmp xs)"


section \<open>Properties of the compactor\<close>

lemma kept_append: "a \<le> b \<Longrightarrow> b \<le> c \<Longrightarrow> kept data filt a c = kept data filt a b @ kept data filt b c"
proof -
  assume "a \<le> b" "b \<le> c"
  then have "[a..<c] = [a..<b] @ [b..<c]"
    by (metis le_Suc_ex upt_add_eq_append)
  then show ?thesis by (simp add: kept_def)
qed

lemma kept_empty [simp]: "kept data filt a a = []"
  by (simp add: kept_def)

lemma kept_step: "kept data filt a (Suc a) = (if filt ! a \<noteq> 0 then [data ! a] else [])"
  by (simp add: kept_def)

lemma bits_length: "pos + W \<le> length filt \<Longrightarrow> length (bytes_mask_to_bits_mask W filt pos) = W"
  by (simp add: bytes_mask_to_bits_mask_def)

lemma bits_nth: "pos + W \<le> length filt \<Longrightarrow> idx < W \<Longrightarrow>
  bytes_mask_to_bits_mask W filt pos ! idx = (filt ! (pos + idx) \<noteq> 0)"
  by (simp add: bytes_mask_to_bits_mask_def)

lemma block_mixed:
  assumes "pos + W \<le> length filt"
  shows "map (\<lambda>idx. data ! (pos + idx)) (iterate_through_bits_mask (bytes_mask_to_bits_mask W filt pos))
         = kept data filt pos (pos + W)"
proof -
  let ?bits = "bytes_mask_to_bits_mask W filt pos"
  have "filter (\<lambda>idx. ?bits ! idx) [0..<W] = filter (\<lambda>idx. filt ! (pos + idx) \<noteq> 0) [0..<W]"
    using assms by (intro filter_cong) (simp_all add: bits_nth)
  moreover have "[pos..<pos + W] = map (\<lambda>i. pos + i) [0..<W]"
    by (induction W) simp_all
  ultimately show ?thesis
    using assms by (simp add: kept_def iterate_through_bits_mask_def bits_length filter_map comp_def)
qed

lemma block_zero:
  assumes "pos + W \<le> length filt" "mask_is_zero (bytes_mask_to_bits_mask W filt pos)"
  shows "kept data filt pos (pos + W) = []"
proof -
  let ?bits = "bytes_mask_to_bits_mask W filt pos"
  have "\<And>idx. idx < W \<Longrightarrow> \<not> ?bits ! idx"
    using assms by (simp add: mask_is_zero_def list_all_length bits_length)
  then have "iterate_through_bits_mask ?bits = []"
    using assms(1) by (simp add: iterate_through_bits_mask_def bits_length filter_empty_conv)
  with block_mixed [OF assms(1), of data] show ?thesis by simp
qed

lemma block_all:
  assumes "pos + W \<le> length filt" "length data = length filt" "mask_is_all (bytes_mask_to_bits_mask W filt pos)"
  shows "kept data filt pos (pos + W) = take W (drop pos data)"
proof -
  let ?bits = "bytes_mask_to_bits_mask W filt pos"
  have "\<And>idx. idx < W \<Longrightarrow> ?bits ! idx"
    using assms by (simp add: mask_is_all_def list_all_length bits_length)
  then have "iterate_through_bits_mask ?bits = [0..<W]"
    using assms(1) by (simp add: iterate_through_bits_mask_def bits_length filter_id_conv)
  with block_mixed [OF assms(1), of data]
  have "kept data filt pos (pos + W) = map (\<lambda>idx. data ! (pos + idx)) [0..<W]" by simp
  also have "\<dots> = take W (drop pos data)"
    using assms by (intro nth_equalityI) simp_all
  finally show ?thesis .
qed

lemma filter_bits_room:
  "length (fst res_data) + length idxs \<le> snd res_data \<Longrightarrow>
   filter_bits data pos idxs res_data =
     Inr (fst res_data @ map (\<lambda>idx. data ! (pos + idx)) idxs, snd res_data)"
proof (induction idxs arbitrary: res_data)
  case Nil
  show ?case by simp
next
  case (Cons idx idxs)
  obtain elems cap where r: "res_data = (elems, cap)" by (cases res_data)
  with Cons.prems have "length elems < cap" by simp
  then have "push_back_without_reserve (data ! (pos + idx)) res_data
             = Inr (elems @ [data ! (pos + idx)], cap)"
    by (simp add: r push_back_without_reserve_def)
  moreover have "filter_bits data pos idxs (elems @ [data ! (pos + idx)], cap)
                 = Inr ((elems @ [data ! (pos + idx)]) @ map (\<lambda>idx. data ! (pos + idx)) idxs, cap)"
    using Cons.IH [of "(elems @ [data ! (pos + idx)], cap)"] Cons.prems r by simp
  ultimately show ?case by (simp add: r)
qed

lemma filter_block:
  assumes fits: "pos + W \<le> length filt" and len: "length data = length filt"
    and room: "length (fst res_data) + length (kept data filt pos (pos + W)) \<le> snd res_data"
  shows "\<exists>cap'. snd res_data \<le> cap' \<and>
    (if mask_is_zero (bytes_mask_to_bits_mask W filt pos) then Inr res_data
     else if mask_is_all (bytes_mask_to_bits_mask W filt pos)
       then Inr (insert_range (take W (drop pos data)) res_data)
     else filter_bits data pos (iterate_through_bits_mask (bytes_mask_to_bits_mask W filt pos)) res_data)
    = Inr (fst res_data @ kept data filt pos (pos + W), cap')"
proof -
  let ?bits = "bytes_mask_to_bits_mask W filt pos"
  obtain elems cap where r: "res_data = (elems, cap)" by (cases res_data)
  show ?thesis
  proof (cases "mask_is_zero ?bits")
    case True
    with block_zero [OF fits True, of data] show ?thesis by (simp add: r)
  next
    case nz: False
    show ?thesis
    proof (cases "mask_is_all ?bits")
      case True
      with nz block_all [OF fits len True] show ?thesis
        by (simp add: r insert_range_def)
    next
      case False
      let ?idxs = "iterate_through_bits_mask ?bits"
      have B: "map (\<lambda>idx. data ! (pos + idx)) ?idxs = kept data filt pos (pos + W)"
        by (rule block_mixed [OF fits])
      then have "length ?idxs = length (kept data filt pos (pos + W))"
        by (metis length_map)
      with room have "length (fst res_data) + length ?idxs \<le> snd res_data" by simp
      from filter_bits_room [OF this, of data pos] nz False show ?thesis
        by (simp add: B)
    qed
  qed
qed

lemma filter_sse_loop_kept:
  assumes "length data = length filt"
  shows "W dvd pos \<Longrightarrow> pos \<le> length data div W * W \<Longrightarrow>
    length (fst res_data) + length (kept data filt pos (length data)) \<le> snd res_data \<Longrightarrow>
    (\<exists>cap'. snd res_data \<le> cap' \<and>
       filter_sse_loop W filt data pos res_data =
         Inr (length data div W * W,
              fst res_data @ kept data filt pos (length data div W * W), cap'))"
  using assms
proof (induction W filt data pos res_data rule: filter_sse_loop.induct)
  case (1 W filt data pos res_data)
  let ?E = "length data div W * W"
  show ?case
  proof (cases "pos < ?E")
    case False
    with "1.prems" have "pos = ?E" by simp
    then show ?thesis by (subst filter_sse_loop.simps) (cases res_data, simp)
  next
    case True
    from "1.prems"(1) obtain k where k: "pos = W * k" by (auto simp: dvd_def)
    from True k have "k < length data div W" by (simp add: mult.commute)
    then have "W * Suc k \<le> ?E" by (metis Suc_leI mult.commute mult_le_mono1)
    with k have step: "pos + W \<le> ?E" by simp
    have E_le: "?E \<le> length data" by simp
    with step "1.prems"(4) have fits: "pos + W \<le> length filt" by linarith
    have dv: "W dvd pos + W" using "1.prems"(1) by simp
    let ?bits = "bytes_mask_to_bits_mask W filt pos"
    let ?B = "kept data filt pos (pos + W)"
    from step E_le have "pos + W \<le> length data" by linarith
    then have split_all: "kept data filt pos (length data) = ?B @ kept data filt (pos + W) (length data)"
      by (intro kept_append) simp_all
    with "1.prems"(3) have room: "length (fst res_data) + length ?B \<le> snd res_data" by simp
    from filter_block [OF fits "1.prems"(4) room]
    obtain cap1 where cap1: "snd res_data \<le> cap1"
      and blk: "(if mask_is_zero ?bits then Inr res_data
         else if mask_is_all ?bits then Inr (insert_range (take W (drop pos data)) res_data)
         else filter_bits data pos (iterate_through_bits_mask ?bits) res_data)
        = Inr (fst res_data @ ?B, cap1)" by blast
    have room': "length (fst (fst res_data @ ?B, cap1)) + length (kept data filt (pos + W) (length data))
                 \<le> snd (fst res_data @ ?B, cap1)"
      using "1.prems"(3) cap1 by (simp add: split_all)
    from "1.IH" [OF True refl blk dv step room' "1.prems"(4)]
    obtain cap' where cap': "cap1 \<le> cap'"
      and rest: "filter_sse_loop W filt data (pos + W) (fst res_data @ ?B, cap1)
                 = Inr (?E, (fst res_data @ ?B) @ kept data filt (pos + W) ?E, cap')" by auto
    have "filter_sse_loop W filt data pos res_data
          = filter_sse_loop W filt data (pos + W) (fst res_data @ ?B, cap1)"
      using True blk by (subst filter_sse_loop.simps) (simp add: Let_def)
    also note rest
    also have "(fst res_data @ ?B) @ kept data filt (pos + W) ?E = fst res_data @ kept data filt pos ?E"
      using kept_append [of pos "pos + W" ?E data filt] step by simp
    finally show ?thesis using cap1 cap' by auto
  qed
qed

lemma filter_tail_loop_kept:
  "pos \<le> length data \<Longrightarrow>
   length (fst res_data) + length (kept data filt pos (length data)) \<le> snd res_data \<Longrightarrow>
    (\<exists>cap'. filter_tail_loop filt data pos res_data =
       Inr (fst res_data @ kept data filt pos (length data), cap'))"
proof (induction filt data pos res_data rule: filter_tail_loop.induct)
  case (1 filt data pos res_data)
  obtain elems cap where r: "res_data = (elems, cap)" by (cases res_data)
  show ?case
  proof (cases "pos < length data")
    case False
    with "1.prems" have "pos = length data" by simp
    then show ?thesis by (subst filter_tail_loop.simps) (simp add: r)
  next
    case True
    then have "Suc pos \<le> length data" by simp
    have split_all: "kept data filt pos (length data)
        = kept data filt pos (Suc pos) @ kept data filt (Suc pos) (length data)"
      using True by (intro kept_append) simp_all
    show ?thesis
    proof (cases "filt ! pos \<noteq> 0")
      case keep: True
      from "1.prems"(2) have "length elems < cap"
        by (simp add: split_all kept_step keep r)
      then have push: "push_back_without_reserve (data ! pos) res_data = Inr (elems @ [data ! pos], cap)"
        by (simp add: r push_back_without_reserve_def)
      have room': "length (fst (elems @ [data ! pos], cap)) + length (kept data filt (pos + 1) (length data))
                   \<le> snd (elems @ [data ! pos], cap)"
        using "1.prems"(2) by (simp add: split_all kept_step keep r)
      from "1.IH"(1) [OF True keep push _ room'] True
      obtain cap' where "filter_tail_loop filt data (pos + 1) (elems @ [data ! pos], cap)
          = Inr ((elems @ [data ! pos]) @ kept data filt (pos + 1) (length data), cap')" by auto
      then show ?thesis using True keep push
        by (subst filter_tail_loop.simps) (simp add: split_all kept_step r)
    next
      case drop: False
      have room': "length (fst res_data) + length (kept data filt (pos + 1) (length data)) \<le> snd res_data"
        using "1.prems"(2) drop by (simp add: split_all kept_step)
      from "1.IH"(2) [OF True drop _ room'] True
      obtain cap' where "filter_tail_loop filt data (pos + 1) res_data
          = Inr (fst res_data @ kept data filt (pos + 1) (length data), cap')" by auto
      then show ?thesis using True drop
        by (subst filter_tail_loop.simps) (simp add: split_all kept_step)
    qed
  qed
qed

lemma kept_true_positions:
  "length data = length filt \<Longrightarrow> kept data filt 0 (length data) = map ((!) data) (true_positions filt)"
  by (simp add: kept_def true_positions_def)

lemma length_true_positions: "length (true_positions m) = popcount m"
proof -
  have "filter (\<lambda>b. b \<noteq> 0) (map ((!) m) [0..<length m])
        = map ((!) m) (filter (\<lambda>i. m ! i \<noteq> 0) [0..<length m])"
    by (simp add: filter_map comp_def)
  then have "length (filter (\<lambda>b. b \<noteq> 0) m) = length (filter (\<lambda>i. m ! i \<noteq> 0) [0..<length m])"
    by (simp add: map_nth)
  then show ?thesis by (simp add: popcount_def true_positions_def)
qed

lemma sorted_true_positions: "sorted_wrt (<) (true_positions m)"
  by (simp add: true_positions_def sorted_wrt_filter)

lemma filter_new_kept:
  assumes len: "length data = length filt"
    and hint: "hint \<le> 0 \<or> int (popcount filt) \<le> hint"
  shows "filter_new W data filt hint = Inr (kept data filt 0 (length data))"
proof -
  let ?E = "length data div W * W"
  define n where "n = (if hint > 0 then nat hint else length data)"
  define res :: "'a PODArray" where "res = reserve n ([], 0)"
  have pc: "length (kept data filt 0 (length data)) = popcount filt"
    using kept_true_positions [OF len] length_true_positions [of filt] by simp
  have "popcount filt \<le> length data"
    using len by (simp add: popcount_def)
  with hint have "popcount filt \<le> n"
    by (auto simp: n_def)
  then have room: "length (fst res) + length (kept data filt 0 (length data)) \<le> snd res"
    by (simp add: res_def reserve_def pc)
  have fst_res: "fst res = []" by (simp add: res_def reserve_def)
  from filter_sse_loop_kept [OF len _ _ room, of W]
  have "\<exists>cap1. snd res \<le> cap1 \<and>
          filter_sse_loop W filt data 0 res = Inr (?E, kept data filt 0 ?E, cap1)"
    by (simp add: fst_res)
  then obtain cap1 where cap1: "snd res \<le> cap1"
    and l1: "filter_sse_loop W filt data 0 res = Inr (?E, kept data filt 0 ?E, cap1)"
    by blast
  have sp: "kept data filt 0 (length data) = kept data filt 0 ?E @ kept data filt ?E (length data)"
    by (intro kept_append) simp_all
  have room1: "length (fst (kept data filt 0 ?E, cap1)) + length (kept data filt ?E (length data))
               \<le> snd (kept data filt 0 ?E, cap1)"
    using room cap1 by (simp add: sp fst_res)
  from filter_tail_loop_kept [OF _ room1]
  have "\<exists>cap2. filter_tail_loop filt data ?E (kept data filt 0 ?E, cap1)
      = Inr (kept data filt 0 (length data), cap2)"
    by (simp add: sp [symmetric])
  then obtain cap2 where l2: "filter_tail_loop filt data ?E (kept data filt 0 ?E, cap1)
      = Inr (kept data filt 0 (length data), cap2)"
    by blast
  have "filter_new W data filt hint =
          (case filter_sse_loop W filt data 0 res of
              Inl e \<Rightarrow> Inl e
            | Inr (pos, res_data1) \<Rightarrow>
                (case filter_tail_loop filt data pos res_data1 of
                   Inl e \<Rightarrow> Inl e
                 | Inr res_data2 \<Rightarrow> Inr (fst res_data2)))"
    using len by (simp add: filter_new_def Let_def res_def n_def)
  then show ?thesis
    by (simp add: l1 l2)
qed

text \<open>
  Claim C1. For every column \<open>c\<close> and mask \<open>m\<close> of the column's length, \<open>filter\<close> to a new
  column returns a column of \<open>popcount m\<close> elements whose \<open>i\<close>-th element is the element of
  \<open>c\<close> at the position of the \<open>i\<close>-th true entry of \<open>m\<close>, the positions ascending, so the
  rows keep their order. When the lengths differ the call fails with \<open>SizeMismatch\<close>.
  The column \<open>c\<close> is an argument of a \<open>const\<close> method: no outcome changes it. This holds
  for every block width \<open>W\<close>, and for the size hints that reserve room for the rows kept:
  a hint that is not positive, for which the method reserves the column's size, and a hint
  of at least \<open>popcount m\<close>.
\<close>

theorem filter_new_correct:
  "(length m = length c \<and> (hint \<le> 0 \<or> int (popcount m) \<le> hint) \<longrightarrow>
      (\<exists>r. filter_new W c m hint = Inr r \<and> length r = popcount m \<and>
           (\<forall>i<length r. r ! i = c ! (true_positions m ! i)) \<and>
           sorted_wrt (<) (true_positions m)))
   \<and> (length m \<noteq> length c \<longrightarrow> filter_new W c m hint = Inl SizeMismatch)"
proof (intro conjI impI)
  assume "length m = length c \<and> (hint \<le> 0 \<or> int (popcount m) \<le> hint)"
  then have len: "length m = length c" and hint: "hint \<le> 0 \<or> int (popcount m) \<le> hint"
    by simp_all
  then have "filter_new W c m hint = Inr (map ((!) c) (true_positions m))"
    using filter_new_kept [of c m hint W] kept_true_positions [of c m] by simp
  then show "\<exists>r. filter_new W c m hint = Inr r \<and> length r = popcount m \<and>
           (\<forall>i<length r. r ! i = c ! (true_positions m ! i)) \<and>
           sorted_wrt (<) (true_positions m)"
    by (simp add: length_true_positions sorted_true_positions)
next
  assume "length m \<noteq> length c"
  then show "filter_new W c m hint = Inl SizeMismatch"
    by (auto simp: filter_new_def)
qed

text \<open>
  The first scenario of the spec, with blocks of two rows: the first block is mixed, the
  second is all true. The hint is 3, the number of rows kept.
\<close>

theorem filter_new_correct_witness:
  "filter_new 2 [5, 3, 8, 1 :: int] [1, 0, 1, 1] 3 = Inr [5, 8, 1]
   \<and> popcount [1, 0, 1, 1] = 3 \<and> true_positions [1, 0, 1, 1] = [0, 2, 3]
   \<and> filter_new 2 [5, 3, 8, 1 :: int] [1, 0, 1] 3 = Inl SizeMismatch"
proof -
  have tp: "true_positions [1, 0, 1, 1] = [0, 2, 3]" by code_simp
  have pc: "popcount [1, 0, 1, 1] = 3" by code_simp
  from filter_new_correct [of "[1, 0, 1, 1]" "[5, 3, 8, 1 :: int]" 3 2] pc
  obtain r where r: "filter_new 2 [5, 3, 8, 1 :: int] [1, 0, 1, 1] 3 = Inr r"
    "length r = popcount [1, 0, 1, 1]" "\<forall>i<length r. r ! i = [5, 3, 8, 1 :: int] ! (true_positions [1, 0, 1, 1] ! i)"
    by auto
  from r(2) pc have l: "length r = 3" by simp
  from r(3) l tp have "r ! 0 = 5" "r ! 1 = 8" "r ! 2 = 1" by simp_all
  with l have "r = [5, 8, 1]"
    by (intro nth_equalityI) (auto simp: less_Suc_eq numeral_3_eq_3 numeral_2_eq_2)
  moreover from filter_new_correct [of "[1, 0, 1]" "[5, 3, 8, 1 :: int]" 3 2]
  have "filter_new 2 [5, 3, 8, 1 :: int] [1, 0, 1] 3 = Inl SizeMismatch" by simp
  ultimately show ?thesis using r(1) tp pc by simp
qed

text \<open>
  A hint below the number of rows kept, with one block of four rows: the room reserved is
  for one element, and the second row kept is pushed with no room left.
\<close>

lemma filter_new_short_hint:
  "filter_new 4 [5, 3, 8, 1 :: int] [1, 0, 1, 1] 1 = Inl OutOfBounds"
  by code_simp

subsection \<open>The in-place form\<close>

lemma filter_inplace_bits_result:
  "\<forall>k<length idxs. r + k \<le> pos + idxs ! k \<Longrightarrow> \<forall>idx\<in>set idxs. pos + idx < length d \<Longrightarrow>
   filter_inplace_bits idxs pos (d, r) =
     (take r d @ map (\<lambda>idx. d ! (pos + idx)) idxs @ drop (r + length idxs) d, r + length idxs)"
proof (induction idxs arbitrary: d r)
  case Nil
  then show ?case by (simp add: filter_inplace_bits_def)
next
  case (Cons i idxs)
  let ?d1 = "d[r := d ! (pos + i)]"
  from Cons.prems(1) have r_le: "r \<le> pos + i" by force
  from Cons.prems(2) have i_lt: "pos + i < length d" by simp
  have later: "\<forall>k<length idxs. Suc r + k \<le> pos + idxs ! k"
  proof (intro allI impI)
    fix k assume "k < length idxs"
    then have "Suc k < length (i # idxs)" by simp
    with Cons.prems(1) have "r + Suc k \<le> pos + (i # idxs) ! Suc k" by blast
    then show "Suc r + k \<le> pos + idxs ! k" by simp
  qed
  have bound: "\<forall>idx\<in>set idxs. pos + idx < length ?d1"
    using Cons.prems(2) by simp
  have unchanged: "map (\<lambda>idx. ?d1 ! (pos + idx)) idxs = map (\<lambda>idx. d ! (pos + idx)) idxs"
  proof (intro nth_equalityI)
    show "length (map (\<lambda>idx. ?d1 ! (pos + idx)) idxs) = length (map (\<lambda>idx. d ! (pos + idx)) idxs)"
      by simp
  next
    fix k assume "k < length (map (\<lambda>idx. ?d1 ! (pos + idx)) idxs)"
    then have k: "k < length idxs" by simp
    with later have "r \<noteq> pos + idxs ! k" by fastforce
    with k show "map (\<lambda>idx. ?d1 ! (pos + idx)) idxs ! k = map (\<lambda>idx. d ! (pos + idx)) idxs ! k"
      by simp
  qed
  have "filter_inplace_bits (i # idxs) pos (d, r) = filter_inplace_bits idxs pos (?d1, Suc r)"
    by (simp add: filter_inplace_bits_def)
  also have "\<dots> = (take (Suc r) ?d1 @ map (\<lambda>idx. ?d1 ! (pos + idx)) idxs
                      @ drop (Suc r + length idxs) ?d1, Suc r + length idxs)"
    using Cons.IH [OF later bound] .
  also have "take (Suc r) ?d1 = take r d @ [d ! (pos + i)]"
    using r_le i_lt by (simp add: take_Suc_conv_app_nth)
  also have "drop (Suc r + length idxs) ?d1 = drop (Suc r + length idxs) d"
    by simp
  finally show ?case by (simp add: unchanged)
qed


lemma splice_props:
  assumes "r + length B \<le> length d"
  shows "length (take r d @ B @ drop (r + length B) d) = length d"
    and "take (r + length B) (take r d @ B @ drop (r + length B) d) = take r d @ B"
    and "r + length B \<le> p \<Longrightarrow> drop p (take r d @ B @ drop (r + length B) d) = drop p d"
proof -
  from assms have r: "r \<le> length d" by simp
  then have m: "min (length d) r = r" by simp
  show "length (take r d @ B @ drop (r + length B) d) = length d"
    using assms by (simp add: m)
  show "take (r + length B) (take r d @ B @ drop (r + length B) d) = take r d @ B"
    by (simp add: m)
  show "drop p (take r d @ B @ drop (r + length B) d) = drop p d" if "r + length B \<le> p"
  proof -
    from that obtain q where p: "p = r + length B + q" by (auto simp: le_iff_add)
    show ?thesis using assms by (simp add: p m add.commute add.left_commute)
  qed
qed

lemma sorted_nat_nth_ge: "sorted_wrt (<) (xs :: nat list) \<Longrightarrow> k < length xs \<Longrightarrow> k \<le> xs ! k"
proof (induction k)
  case 0
  then show ?case by simp
next
  case (Suc k)
  then have "xs ! k < xs ! Suc k" by (simp add: sorted_wrt_nth_less)
  with Suc show ?case by simp
qed

lemma length_kept_le: "length (kept data filt a b) \<le> b - a"
  using length_filter_le [of "\<lambda>i. filt ! i \<noteq> 0" "[a..<b]"] by (simp add: kept_def)

lemma compacted_block:
  assumes inv: "compacted data0 filt d pos r"
    and len: "length data0 = length filt" and fits: "pos + W \<le> length data0"
  defines "B \<equiv> kept data0 filt pos (pos + W)"
  defines "d' \<equiv> take r d @ B @ drop (r + length B) d"
  shows "compacted data0 filt d' (pos + W) (r + length B)"
proof -
  from inv have ld: "length d = length data0" and rp: "r \<le> pos"
    and tk: "take r d = kept data0 filt 0 pos" and dr: "drop pos d = drop pos data0"
    by (simp_all add: compacted_def)
  have lB: "length B \<le> W" using length_kept_le [of data0 filt pos "pos + W"] by (simp add: B_def)
  with rp fits ld have room: "r + length B \<le> length d" by simp
  have "drop (pos + W) d' = drop (pos + W) d"
    unfolding d'_def using room lB rp by (intro splice_props(3)) simp_all
  also have "\<dots> = drop W (drop pos d)" by (simp add: add.commute)
  also have "\<dots> = drop (pos + W) data0" by (simp add: dr add.commute)
  finally have 1: "drop (pos + W) d' = drop (pos + W) data0" .
  have "take (r + length B) d' = take r d @ B"
    unfolding d'_def using room by (rule splice_props(2))
  also have "\<dots> = kept data0 filt 0 (pos + W)"
    using kept_append [of 0 pos "pos + W" data0 filt] by (simp add: tk B_def)
  finally have 2: "take (r + length B) d' = kept data0 filt 0 (pos + W)" .
  have 3: "length d' = length data0"
    unfolding d'_def using splice_props(1) [OF room] ld by simp
  from 1 2 3 lB rp fits show ?thesis by (simp add: compacted_def)
qed

lemma inplace_block_zero:
  assumes "pos + W \<le> length filt" "mask_is_zero (bytes_mask_to_bits_mask W filt pos)"
  shows "take r d @ kept data0 filt pos (pos + W) @ drop (r + length (kept data0 filt pos (pos + W))) d = d"
  using block_zero [OF assms, of data0] by simp

lemma inplace_block_all:
  assumes "pos + W \<le> length filt" "length data0 = length filt"
    "mask_is_all (bytes_mask_to_bits_mask W filt pos)" "drop pos d = drop pos data0"
  shows "memmove d r pos W =
    take r d @ kept data0 filt pos (pos + W) @ drop (r + length (kept data0 filt pos (pos + W))) d"
  using block_all [OF assms(1-3)] assms(1,2,4) by (simp add: memmove_def)

lemma inplace_block_mixed:
  assumes fits: "pos + W \<le> length filt" and len: "length data0 = length filt"
    and ld: "length d = length data0" and rp: "r \<le> pos" and dr: "drop pos d = drop pos data0"
  shows "filter_inplace_bits (iterate_through_bits_mask (bytes_mask_to_bits_mask W filt pos)) pos (d, r) =
    (take r d @ kept data0 filt pos (pos + W) @ drop (r + length (kept data0 filt pos (pos + W))) d,
     r + length (kept data0 filt pos (pos + W)))"
proof -
  let ?idxs = "iterate_through_bits_mask (bytes_mask_to_bits_mask W filt pos)"
  have srt: "sorted_wrt (<) ?idxs"
    by (simp add: iterate_through_bits_mask_def sorted_wrt_filter)
  have in_block: "\<forall>idx\<in>set ?idxs. idx < W"
    using fits by (simp add: iterate_through_bits_mask_def bits_length)
  have a1: "\<forall>k<length ?idxs. r + k \<le> pos + ?idxs ! k"
    using sorted_nat_nth_ge [OF srt] rp by (simp add: add_mono)
  have a2: "\<forall>idx\<in>set ?idxs. pos + idx < length d"
    using in_block fits len ld by fastforce
  have same: "map (\<lambda>idx. d ! (pos + idx)) ?idxs = map (\<lambda>idx. data0 ! (pos + idx)) ?idxs"
  proof (rule map_cong [OF refl])
    fix idx assume "idx \<in> set ?idxs"
    with a2 have "pos + idx < length d" by blast
    then have "d ! (pos + idx) = drop pos d ! idx" by simp
    also have "\<dots> = data0 ! (pos + idx)" using \<open>pos + idx < length d\<close> ld by (simp add: dr)
    finally show "d ! (pos + idx) = data0 ! (pos + idx)" .
  qed
  have B: "map (\<lambda>idx. data0 ! (pos + idx)) ?idxs = kept data0 filt pos (pos + W)"
    by (rule block_mixed [OF fits])
  from B have lB: "length ?idxs = length (kept data0 filt pos (pos + W))"
    by (metis length_map)
  show ?thesis
    using filter_inplace_bits_result [OF a1 a2] by (simp add: same B lB)
qed


lemma filter_inplace_sse_loop_compacted:
  assumes "length data0 = length filt"
  shows "W dvd pos \<Longrightarrow> pos \<le> sz div W * W \<Longrightarrow> sz = length data0 \<Longrightarrow>
    compacted data0 filt d pos r \<Longrightarrow>
    (\<exists>d' r'. filter_inplace_sse_loop W filt sz d pos r = (d', sz div W * W, r') \<and>
       compacted data0 filt d' (sz div W * W) r')"
  using assms
proof (induction W filt sz d pos r rule: filter_inplace_sse_loop.induct)
  case (1 W filt sz d pos r)
  let ?E = "sz div W * W"
  show ?case
  proof (cases "pos < ?E")
    case False
    with "1.prems" have "pos = ?E" by simp
    with "1.prems"(4) show ?thesis by (subst filter_inplace_sse_loop.simps) simp
  next
    case True
    from "1.prems"(1) obtain k where k: "pos = W * k" by (auto simp: dvd_def)
    from True k have "k < sz div W" by (simp add: mult.commute)
    then have "W * Suc k \<le> ?E" by (metis Suc_leI mult.commute mult_le_mono1)
    with k have step: "pos + W \<le> ?E" by simp
    have "?E \<le> sz" by simp
    with step "1.prems"(3) have fits0: "pos + W \<le> length data0" by linarith
    with "1.prems"(5) have fits: "pos + W \<le> length filt" by simp
    have dv: "W dvd pos + W" using "1.prems"(1) by simp
    from "1.prems"(4) have ld: "length d = length data0" and rp: "r \<le> pos"
      and dr: "drop pos d = drop pos data0" by (simp_all add: compacted_def)
    let ?bits = "bytes_mask_to_bits_mask W filt pos"
    let ?B = "kept data0 filt pos (pos + W)"
    let ?d' = "take r d @ ?B @ drop (r + length ?B) d"
    have inv': "compacted data0 filt ?d' (pos + W) (r + length ?B)"
      using compacted_block [OF "1.prems"(4) "1.prems"(5) fits0] .
    show ?thesis
    proof (cases "mask_is_zero ?bits")
      case zero: True
      have B: "?B = []" using block_zero [OF fits zero] .
      with inv' have "compacted data0 filt d (pos + W) r" by simp
      from "1.IH"(1) [OF True refl zero dv step "1.prems"(3) this "1.prems"(5)]
      show ?thesis using True zero by (subst filter_inplace_sse_loop.simps) (simp add: Let_def)
    next
      case nz: False
      show ?thesis
      proof (cases "mask_is_all ?bits")
        case all: True
        have mm: "memmove d r pos W = ?d'"
          using inplace_block_all [OF fits "1.prems"(5) all dr] .
        have "length ?B = W" using block_all [OF fits "1.prems"(5) all] fits0 by simp
        with inv' mm have "compacted data0 filt (memmove d r pos W) (pos + W) (r + W)" by simp
        from "1.IH"(2) [OF True refl nz all dv step "1.prems"(3) this "1.prems"(5)]
        show ?thesis using True nz all
          by (subst filter_inplace_sse_loop.simps) (simp add: Let_def)
      next
        case mixed: False
        have fb: "filter_inplace_bits (iterate_through_bits_mask ?bits) pos (d, r) = (?d', r + length ?B)"
          using inplace_block_mixed [OF fits "1.prems"(5) ld rp dr] .
        from "1.IH"(3) [OF True refl nz mixed fb [symmetric] refl dv step "1.prems"(3) inv' "1.prems"(5)]
        show ?thesis using True nz mixed fb
          by (subst filter_inplace_sse_loop.simps) (simp add: Let_def)
      qed
    qed
  qed
qed

lemma filter_inplace_tail_loop_compacted:
  "sz = length data0 \<Longrightarrow> length data0 = length filt \<Longrightarrow> compacted data0 filt d pos r \<Longrightarrow>
    (\<exists>d' r'. filter_inplace_tail_loop filt sz d pos r = (d', r') \<and>
       compacted data0 filt d' sz r')"
proof (induction filt sz d pos r rule: filter_inplace_tail_loop.induct)
  case (1 filt sz d pos r)
  from "1.prems"(3) have ld: "length d = length data0" and rp: "r \<le> pos" and ps: "pos \<le> sz"
    and tk: "take r d = kept data0 filt 0 pos" and dr: "drop pos d = drop pos data0"
    using "1.prems"(1) by (simp_all add: compacted_def)
  show ?case
  proof (cases "pos < sz")
    case False
    with ps have "pos = sz" by simp
    with "1.prems"(3) show ?thesis by (subst filter_inplace_tail_loop.simps) simp
  next
    case True
    have at: "d ! pos = data0 ! pos"
    proof -
      have "d ! pos = drop pos d ! 0" using True ld "1.prems"(1) by simp
      also have "\<dots> = data0 ! pos" using True "1.prems"(1) by (simp add: dr)
      finally show ?thesis .
    qed
    have k: "kept data0 filt 0 (Suc pos) = kept data0 filt 0 pos @ kept data0 filt pos (Suc pos)"
      by (intro kept_append) simp_all
    have dr': "drop (Suc pos) d = drop (Suc pos) data0"
      using dr by (metis drop_Suc drop_tl tl_drop)
    show ?thesis
    proof (cases "filt ! pos \<noteq> 0")
      case keep: True
      let ?d1 = "d[r := d ! pos]"
      have r_lt: "r < length d" using rp True ld "1.prems"(1) by simp
      have "take (Suc r) ?d1 = take r d @ [data0 ! pos]"
        using r_lt by (simp add: take_Suc_conv_app_nth at)
      moreover have "drop (Suc pos) ?d1 = drop (Suc pos) d" using rp by simp
      ultimately have "compacted data0 filt ?d1 (pos + 1) (r + 1)"
        using ld rp True "1.prems"(1) keep dr' by (simp add: compacted_def k kept_step tk)
      from "1.IH"(1) [OF True keep "1.prems"(1) "1.prems"(2) this]
      show ?thesis using True keep by (subst filter_inplace_tail_loop.simps) simp
    next
      case drop: False
      have "compacted data0 filt d (pos + 1) r"
        using ld rp True "1.prems"(1) drop dr' by (simp add: compacted_def k kept_step tk)
      from "1.IH"(2) [OF True drop "1.prems"(1) "1.prems"(2) this]
      show ?thesis using True drop by (subst filter_inplace_tail_loop.simps) simp
    qed
  qed
qed

lemma filter_inplace_kept:
  assumes "length data = length filt"
  shows "filter_inplace W data filt =
    Inr (kept data filt 0 (length data), length (kept data filt 0 (length data)))"
proof -
  let ?sz = "length data"
  have init: "compacted data filt data 0 0" by (simp add: compacted_def)
  from filter_inplace_sse_loop_compacted [OF assms _ _ refl init, of W]
  obtain d1 r1 where l1: "filter_inplace_sse_loop W filt ?sz data 0 0 = (d1, ?sz div W * W, r1)"
    and c1: "compacted data filt d1 (?sz div W * W) r1" by auto
  from filter_inplace_tail_loop_compacted [OF refl assms c1]
  obtain d2 r2 where l2: "filter_inplace_tail_loop filt ?sz d1 (?sz div W * W) r1 = (d2, r2)"
    and c2: "compacted data filt d2 ?sz r2" by auto
  from c2 have "r2 \<le> length d2" and t: "take r2 d2 = kept data filt 0 ?sz"
    by (simp_all add: compacted_def)
  then have "resize r2 d2 = kept data filt 0 ?sz" by (simp add: resize_def)
  moreover from t \<open>r2 \<le> length d2\<close> have "r2 = length (kept data filt 0 ?sz)"
    by (metis length_take min.absorb2)
  ultimately show ?thesis using assms l1 l2 by (simp add: filter_inplace_def Let_def)
qed

text \<open>
  Claim C2. For every column \<open>c\<close> and mask \<open>m\<close> of the column's length, the in-place
  \<open>filter\<close> leaves in the column exactly the content that \<open>filter\<close> to a new column
  returns, element for element, and returns the new length, which is \<open>popcount m\<close>.
  \<open>filter\<close> to a new column is taken at the size hints that reserve room for the rows
  kept (a hint that is not positive, or one of at least \<open>popcount m\<close>); the in-place form
  has no hint.
\<close>

theorem filter_inplace_refines_filter_new:
  "length m = length c \<Longrightarrow> hint \<le> 0 \<or> int (popcount m) \<le> hint \<Longrightarrow>
    (\<exists>r. filter_new W c m hint = Inr r \<and> filter_inplace W c m = Inr (r, popcount m))"
  using filter_new_kept [of c m hint W] filter_inplace_kept [of c m W]
    kept_true_positions [of c m] length_true_positions [of m]
  by simp

text \<open>
  The first scenario of the spec, in place and to a new column with no hint (\<open>-1\<close>): the
  length returned is 3.
\<close>

theorem filter_inplace_refines_filter_new_witness:
  "filter_new 2 [5, 3, 8, 1 :: int] [1, 0, 1, 1] (- 1) = Inr [5, 8, 1]
   \<and> filter_inplace 2 [5, 3, 8, 1 :: int] [1, 0, 1, 1] = Inr ([5, 8, 1], 3)"
proof -
  have "filter_new 2 [5, 3, 8, 1 :: int] [1, 0, 1, 1] (- 1) = Inr [5, 8, 1]" by code_simp
  moreover have "popcount [1, 0, 1, 1] = 3" by code_simp
  ultimately show ?thesis
    using filter_inplace_refines_filter_new [of "[1, 0, 1, 1]" "[5, 3, 8, 1 :: int]" "- 1" 2] by simp
qed

section \<open>Properties of the bulk operations\<close>

lemma replace_null_loop_result:
  "s = length data \<Longrightarrow> i \<le> s \<Longrightarrow>
   replace_null_loop null_map s data i =
     take i data @ map (\<lambda>k. if null_map ! k \<noteq> 0 then 0 else data ! k) [i..<s]"
proof (induction null_map s data i rule: replace_null_loop.induct)
  case (1 null_map s data i)
  show ?case
  proof (cases "i < s")
    case False
    with "1.prems" show ?thesis by (subst replace_null_loop.simps) simp
  next
    case True
    let ?v = "if null_map ! i \<noteq> 0 then 0 else data ! i"
    let ?d = "data[i := ?v]"
    have same: "map (\<lambda>k. if null_map ! k \<noteq> 0 then 0 else ?d ! k) [Suc i..<s]
                = map (\<lambda>k. if null_map ! k \<noteq> 0 then 0 else data ! k) [Suc i..<s]"
      by (rule map_cong) auto
    have "replace_null_loop null_map s data i = replace_null_loop null_map s ?d (i + 1)"
      using True by (subst replace_null_loop.simps) simp
    also have "\<dots> = take (i + 1) ?d @ map (\<lambda>k. if null_map ! k \<noteq> 0 then 0 else ?d ! k) [i + 1..<s]"
      using "1.IH" [OF True] True "1.prems" by simp
    also have "take (i + 1) ?d = take i data @ [?v]"
      using True "1.prems" by (simp add: take_Suc_conv_app_nth)
    finally show ?thesis using True by (simp add: same upt_conv_Cons)
  qed
qed

lemma no_nulls_iff:
  "s \<le> length null_map \<Longrightarrow>
   (s - count_zero_num null_map s = 0) = (\<forall>k. k < s \<longrightarrow> null_map ! k = 0)"
proof -
  assume le: "s \<le> length null_map"
  let ?xs = "take s null_map"
  have len: "length ?xs = s" using le by simp
  have "(length (filter (\<lambda>b. b = 0) ?xs) = length ?xs) = (\<forall>b\<in>set ?xs. b = 0)"
    by (metis (mono_tags, lifting) filter_id_conv length_filter_less less_irrefl)
  also have "\<dots> = (\<forall>k. k < s \<longrightarrow> null_map ! k = 0)"
    using len by (auto simp: all_set_conv_all_nth)
  finally have X: "(length (filter (\<lambda>b. b = 0) ?xs) = length ?xs) = (\<forall>k. k < s \<longrightarrow> null_map ! k = 0)" .
  have cz: "count_zero_num null_map s = length (filter (\<lambda>b. b = 0) ?xs)"
    by (simp only: count_zero_num_def)
  have "(count_zero_num null_map s = s) = (\<forall>k. k < s \<longrightarrow> null_map ! k = 0)"
    using X by (simp only: cz len)
  moreover have "count_zero_num null_map s \<le> s"
    using length_filter_le [of "\<lambda>b. b = 0" ?xs] by (simp only: cz len)
  ultimately show ?thesis by auto
qed

text \<open>
  Claim C10. For every column and every null map of the column's length,
  \<open>replace_column_null_data\<close> returns, sets to zero the element of every row whose
  null-map byte is nonzero, leaves every other element as it was, and keeps the size.
\<close>

theorem replace_column_null_data_frame:
  "length null_map = length data \<Longrightarrow>
   (\<exists>data'. replace_column_null_data data null_map = Inr data' \<and>
      length data' = length data \<and>
      (\<forall>i<length data. data' ! i = (if null_map ! i \<noteq> 0 then 0 else data ! i)))"
proof -
  assume len: "length null_map = length data"
  let ?r = "map (\<lambda>k. if null_map ! k \<noteq> 0 then 0 else data ! k) [0..<length data]"
  show ?thesis
  proof (cases "length data - count_zero_num null_map (length data) = 0")
    case True
    with no_nulls_iff [of "length data" null_map] len
    have "\<forall>k<length data. null_map ! k = 0" by simp
    with True len show ?thesis by (simp add: replace_column_null_data_def)
  next
    case False
    have "replace_null_loop null_map (length data) data 0 = ?r"
      using replace_null_loop_result [of "length data" data 0 null_map] by simp
    with False len have "replace_column_null_data data null_map = Inr ?r"
      by (simp add: replace_column_null_data_def)
    then show ?thesis by simp
  qed
qed

theorem replace_column_null_data_frame_witness:
  "replace_column_null_data [7, 9, 4 :: 64 word] [0, 1, 0] = Inr [7, 0, 4]"
proof -
  from replace_column_null_data_frame [of "[0, 1, 0]" "[7, 9, 4 :: 64 word]"]
  obtain d where d: "replace_column_null_data [7, 9, 4 :: 64 word] [0, 1, 0] = Inr d"
    "length d = 3"
    "\<forall>i<3. d ! i = (if [0, 1, 0 :: UInt8] ! i \<noteq> 0 then 0 else [7, 9, 4 :: 64 word] ! i)"
    by auto
  from d(3) have "d ! 0 = 7" "d ! 1 = 0" "d ! 2 = 4" by simp_all
  with d(2) have "d = [7, 0, 4]"
    by (intro nth_equalityI) (auto simp: less_Suc_eq numeral_3_eq_3 numeral_2_eq_2)
  with d(1) show ?thesis by simp
qed

subsection \<open>\<open>insert_range_from\<close>\<close>

lemma insert_range_from_no_overflow:
  "unat start + unat len < 2 ^ 64 \<Longrightarrow>
   insert_range_from data src start len =
     (if unat start + unat len > length src then Inl (Exception INTERNAL_ERROR)
      else Inr (data @ take (unat len) (drop (unat start) src)))"
proof -
  assume "unat start + unat len < 2 ^ 64"
  then have "unat (start + len) = unat start + unat len"
    using unat_add_lem [of start len] by simp
  then show ?thesis
    by (simp add: insert_range_from_def memcpy_def resize_def Let_def)
qed

text \<open>
  Claim C4, at the input where the code departs from it. With \<open>start = 2 ^ 64 - 1\<close> and
  \<open>length = 1\<close> the sum \<open>start + length\<close> exceeds the size of every source, but in
  \<open>size_t\<close> arithmetic it is \<open>0\<close>: the test does not fire, no exception is thrown, the
  destination is resized and the copy reads the source out of bounds.
\<close>

theorem insert_range_from_wraparound:
  "length [10, 20, 30 :: int] < unat (18446744073709551615 :: size_t) + unat (1 :: size_t)
   \<and> insert_range_from [7] [10, 20, 30 :: int] 18446744073709551615 1 \<noteq> Inl (Exception INTERNAL_ERROR)
   \<and> insert_range_from [7] [10, 20, 30 :: int] 18446744073709551615 1 = Inl OutOfBounds"
  by (simp add: insert_range_from_def memcpy_def resize_def)

subsection \<open>\<open>permute\<close>\<close>

text \<open>
  Claim C8 as stated: for a permutation shorter than the effective limit the call ends the
  process. It does not: the call ends with the exception \<open>INTERNAL_ERROR\<close>, thrown to the
  caller as \<open>insert_range_from\<close> throws its range error.
\<close>

theorem permute_short_permutation_counterexample:
  "length [3, 1 :: nat] < length [5, 3, 8, 1 :: int]
   \<and> permute [5, 3, 8, 1 :: int] [3, 1] 0 \<noteq> Inl Abort
   \<and> permute [5, 3, 8, 1 :: int] [3, 1] 0 = insert_range_from [] [5, 3, 8, 1 :: int] 3 2"
  by (simp add: permute_def insert_range_from_def)

text \<open>
  Claim C8 as amended. When the permutation is shorter than the effective limit (the size
  of the column when \<open>limit\<close> is 0, the smaller of the size and \<open>limit\<close> otherwise),
  \<open>permute\<close> throws \<open>doris::Exception\<close> with the code \<open>INTERNAL_ERROR\<close> to its caller and
  returns no column.
\<close>

theorem permute_short_permutation_throws:
  "length perm < (if limit = 0 then length data else min (length data) limit) \<Longrightarrow>
   permute data perm limit = Inl (Exception INTERNAL_ERROR)"
  by (simp add: permute_def Let_def)

theorem permute_short_permutation_throws_witness:
  "permute [5, 3, 8, 1 :: int] [3, 1] 3 = Inl (Exception INTERNAL_ERROR)"
  using permute_short_permutation_throws [of "[3, 1]" 3 "[5, 3, 8, 1 :: int]"] by simp

section \<open>Properties of the content hasher\<close>

lemma for_loop_pointwise:
  "\<forall>i hs. body i hs = hs[i := g i (hs ! i)] \<Longrightarrow> i \<le> s \<Longrightarrow> s \<le> length hs \<Longrightarrow>
    for_loop i s body hs = take i hs @ map (\<lambda>k. g k (hs ! k)) [i..<s] @ drop s hs"
proof (induction i s body hs rule: for_loop.induct)
  case (1 i s body hs)
  note body = "1.prems"(1) [rule_format]
  show ?case
  proof (cases "i < s")
    case False
    with "1.prems" show ?thesis by (subst for_loop.simps) simp
  next
    case True
    let ?h = "hs[i := g i (hs ! i)]"
    have same: "map (\<lambda>k. g k (?h ! k)) [Suc i..<s] = map (\<lambda>k. g k (hs ! k)) [Suc i..<s]"
      by (rule map_cong) auto
    have bi: "body i hs = ?h" by (rule body)
    have "for_loop i s body hs = for_loop (i + 1) s body ?h"
      using True by (subst for_loop.simps) (simp add: bi)
    also have "\<dots> = take (i + 1) ?h @ map (\<lambda>k. g k (?h ! k)) [i + 1..<s] @ drop s ?h"
      using "1.IH" [OF True "1.prems"(1)] True "1.prems"(2,3) unfolding bi by simp
    also have "take (i + 1) ?h = take i hs @ [g i (hs ! i)]"
      using True "1.prems" by (simp add: take_Suc_conv_app_nth)
    also have "drop s ?h = drop s hs" using True by simp
    finally show ?thesis using True by (simp add: same upt_conv_Cons)
  qed
qed

lemma for_loop_rows:
  assumes body: "\<And>i hs. body i hs = (if keep i then hs[i := f i (hs ! i)] else hs)"
    and len: "length hs = s"
  shows "for_loop 0 s body hs = map (\<lambda>k. if keep k then f k (hs ! k) else hs ! k) [0..<s]"
proof -
  have "\<forall>i hs. body i hs = hs[i := (\<lambda>k x. if keep k then f k x else x) i (hs ! i)]"
    by (simp add: body)
  from for_loop_pointwise [OF this, of 0 s hs] len show ?thesis by simp
qed

text \<open>
  A row is mixed when no null map is supplied or the null map has a zero byte for it.
\<close>

lemma update_crcs_rows:
  assumes "rows = length data" "length hashes = rows"
    "case null_data of None \<Rightarrow> True | Some null_map \<Rightarrow> length null_map = rows"
  shows "update_crcs_with_value zlib_crc_hash to_buffer T data hashes type rows offset null_data =
    Inr (map (\<lambda>i.
      if (case null_data of None \<Rightarrow> True | Some null_map \<Rightarrow> null_map ! i = 0) then
        (if T = T_Int64 \<and> (type = TYPE_DATE \<or> type = TYPE_DATETIME)
         then zlib_crc_hash (to_buffer (data ! i)) (hashes ! i)
         else zlib_crc_hash (raw_bytes (data ! i)) (hashes ! i))
      else hashes ! i) [0..<rows])"
proof -
  have macro: "DO_CRC_HASHES_FUNCTION_COLUMN_IMPL zlib_crc_hash data rows null_data hashes =
    map (\<lambda>i. if (case null_data of None \<Rightarrow> True | Some null_map \<Rightarrow> null_map ! i = 0)
             then zlib_crc_hash (raw_bytes (data ! i)) (hashes ! i) else hashes ! i) [0..<rows]"
  proof (cases null_data)
    case None
    have "for_loop 0 rows (\<lambda>i hs. hs[i := zlib_crc_hash (raw_bytes (data ! i)) (hs ! i)]) hashes
      = map (\<lambda>k. if True then zlib_crc_hash (raw_bytes (data ! k)) (hashes ! k) else hashes ! k) [0..<rows]"
      by (rule for_loop_rows [where keep = "\<lambda>i. True"]) (simp_all add: assms(2))
    with None show ?thesis by (simp add: DO_CRC_HASHES_FUNCTION_COLUMN_IMPL_def)
  next
    case (Some null_map)
    have "for_loop 0 rows (\<lambda>i hs. if null_map ! i = 0
                then hs[i := zlib_crc_hash (raw_bytes (data ! i)) (hs ! i)] else hs) hashes
      = map (\<lambda>k. if null_map ! k = 0 then zlib_crc_hash (raw_bytes (data ! k)) (hashes ! k) else hashes ! k) [0..<rows]"
      by (rule for_loop_rows) (simp_all add: assms(2))
    with Some show ?thesis by (simp add: DO_CRC_HASHES_FUNCTION_COLUMN_IMPL_def)
  qed
  have dates: "(case null_data of
           None \<Rightarrow> Inr (for_loop 0 rows (date_convert_do_crc zlib_crc_hash to_buffer data) hashes)
         | Some null_map \<Rightarrow> Inr (for_loop 0 rows
                   (\<lambda>i hs. if null_map ! i = 0
                            then date_convert_do_crc zlib_crc_hash to_buffer data i hs else hs)
                   hashes)) =
    (Inr (map (\<lambda>i. if (case null_data of None \<Rightarrow> True | Some null_map \<Rightarrow> null_map ! i = 0)
             then zlib_crc_hash (to_buffer (data ! i)) (hashes ! i) else hashes ! i) [0..<rows])
     :: fault + 32 word list)"
  proof (cases null_data)
    case None
    have "for_loop 0 rows (date_convert_do_crc zlib_crc_hash to_buffer data) hashes
      = map (\<lambda>k. if True then zlib_crc_hash (to_buffer (data ! k)) (hashes ! k) else hashes ! k) [0..<rows]"
      by (rule for_loop_rows [where keep = "\<lambda>i. True"])
        (simp_all add: assms(2) date_convert_do_crc_def)
    with None show ?thesis by simp
  next
    case (Some null_map)
    have "for_loop 0 rows (\<lambda>i hs. if null_map ! i = 0
                then date_convert_do_crc zlib_crc_hash to_buffer data i hs else hs) hashes
      = map (\<lambda>k. if null_map ! k = 0 then zlib_crc_hash (to_buffer (data ! k)) (hashes ! k) else hashes ! k) [0..<rows]"
      by (rule for_loop_rows) (simp_all add: assms(2) date_convert_do_crc_def)
    with Some show ?thesis by simp
  qed
  have ok: "\<not> (length data < rows \<or> length hashes < rows
         \<or> (case null_data of None \<Rightarrow> False | Some null_map \<Rightarrow> length null_map < rows))"
    using assms by (simp split: option.splits)
  show ?thesis
  proof (cases "T = T_Int64 \<and> (type = TYPE_DATE \<or> type = TYPE_DATETIME)")
    case True
    then show ?thesis
      unfolding update_crcs_with_value_def Let_def using ok
      by (simp only: dates if_False if_True simp_thms)
  next
    case False
    then show ?thesis
      unfolding update_crcs_with_value_def Let_def using ok
      by (auto simp: macro)
  qed
qed


text \<open>
  Claim C7. On a column of 64-bit integers (\<open>T\<close> is \<open>Int64\<close>) whose tag is \<open>TYPE_DATE\<close> or
  \<open>TYPE_DATETIME\<close>, \<open>update_crcs_with_value\<close> mixes into the accumulator of every row that
  is not null the checksum of the text rendering of the element, not of its raw bytes;
  for every other tag, and every other element type, it mixes the checksum of the raw
  bytes of the element; a row that the supplied null map marks null keeps its
  accumulator. So on a temporal column the result depends on an element through its
  rendering only: two columns whose elements render to the same texts, whatever their
  bits, get the same checksums.
\<close>

theorem update_crcs_with_value_temporal:
  assumes "rows = length data" "length hashes = rows"
    "case null_data of None \<Rightarrow> True | Some null_map \<Rightarrow> length null_map = rows"
  shows "(\<exists>hashes'.
      update_crcs_with_value zlib_crc_hash to_buffer T data hashes type rows offset null_data
        = Inr hashes' \<and>
      length hashes' = rows \<and>
      (\<forall>i<rows. hashes' ! i =
         (if (case null_data of None \<Rightarrow> False | Some null_map \<Rightarrow> null_map ! i \<noteq> 0)
          then hashes ! i
          else if T = T_Int64 \<and> (type = TYPE_DATE \<or> type = TYPE_DATETIME)
          then zlib_crc_hash (to_buffer (data ! i)) (hashes ! i)
          else zlib_crc_hash (raw_bytes (data ! i)) (hashes ! i))))
    \<and> (T = T_Int64 \<and> (type = TYPE_DATE \<or> type = TYPE_DATETIME) \<and> length data' = rows \<and>
        (\<forall>i<rows. to_buffer (data' ! i) = to_buffer (data ! i)) \<longrightarrow>
        update_crcs_with_value zlib_crc_hash to_buffer T data' hashes type rows offset null_data
        = update_crcs_with_value zlib_crc_hash to_buffer T data hashes type rows offset null_data)"
proof (intro conjI impI)
  note r = update_crcs_rows [OF assms, of zlib_crc_hash to_buffer T type offset]
  show "\<exists>hashes'.
      update_crcs_with_value zlib_crc_hash to_buffer T data hashes type rows offset null_data
        = Inr hashes' \<and>
      length hashes' = rows \<and>
      (\<forall>i<rows. hashes' ! i =
         (if (case null_data of None \<Rightarrow> False | Some null_map \<Rightarrow> null_map ! i \<noteq> 0)
          then hashes ! i
          else if T = T_Int64 \<and> (type = TYPE_DATE \<or> type = TYPE_DATETIME)
          then zlib_crc_hash (to_buffer (data ! i)) (hashes ! i)
          else zlib_crc_hash (raw_bytes (data ! i)) (hashes ! i)))"
    unfolding r by (cases null_data) auto
next
  assume a: "T = T_Int64 \<and> (type = TYPE_DATE \<or> type = TYPE_DATETIME) \<and> length data' = rows \<and>
        (\<forall>i<rows. to_buffer (data' ! i) = to_buffer (data ! i))"
  then have len': "rows = length data'" by simp
  note r = update_crcs_rows [OF assms, of zlib_crc_hash to_buffer T type offset]
  note r' = update_crcs_rows [OF len' assms(2,3), of zlib_crc_hash to_buffer T type offset]
  show "update_crcs_with_value zlib_crc_hash to_buffer T data' hashes type rows offset null_data
        = update_crcs_with_value zlib_crc_hash to_buffer T data hashes type rows offset null_data"
    unfolding r r' using a by simp
qed

text \<open>
  A column of two 64-bit integers tagged \<open>TYPE_DATE\<close>, the second row null; a toy checksum
  and a toy rendering that keeps the parity of the element only. The column \<open>[7, 9]\<close>
  renders as \<open>[5, 9]\<close> does and gets the same checksums.
\<close>

theorem update_crcs_with_value_temporal_witness:
  "update_crcs_with_value (\<lambda>bs seed. seed * 31 + ucast (hd bs)) (\<lambda>x :: 64 word. [if even x then 48 else 49])
     T_Int64 [5, 9] [100, 200] TYPE_DATE 2 0 (Some [0, 1]) = Inr [3149, 200]
   \<and> update_crcs_with_value (\<lambda>bs seed. seed * 31 + ucast (hd bs)) (\<lambda>x :: 64 word. [if even x then 48 else 49])
     T_Int64 [7, 9] [100, 200] TYPE_DATE 2 0 (Some [0, 1]) = Inr [3149, 200]"
proof -
  let ?crc = "\<lambda>(bs :: UInt8 list) (seed :: 32 word). seed * 31 + ucast (hd bs)"
  let ?buf = "\<lambda>x :: 64 word. [if even x then 48 else 49 :: UInt8]"
  have p1: "2 = length [5, 9 :: 64 word]" and p2: "length [100, 200 :: 32 word] = 2"
    and p3: "case Some [0, 1 :: UInt8] of None \<Rightarrow> True | Some null_map \<Rightarrow> length null_map = 2"
    by simp_all
  note t = update_crcs_with_value_temporal [OF p1 p2 p3, of ?crc ?buf T_Int64 TYPE_DATE 0 "[7, 9]"]
  from t [THEN conjunct1]
  obtain h where hh: "update_crcs_with_value ?crc ?buf T_Int64 [5, 9] [100, 200] TYPE_DATE 2 0 (Some [0, 1]) = Inr h \<and>
    length h = 2 \<and>
    (\<forall>i<2. h ! i =
         (if (case Some [0, 1 :: UInt8] of None \<Rightarrow> False | Some null_map \<Rightarrow> null_map ! i \<noteq> 0)
          then [100, 200] ! i
          else if T_Int64 = T_Int64 \<and> (TYPE_DATE = TYPE_DATE \<or> TYPE_DATE = TYPE_DATETIME)
          then ?crc (?buf ([5, 9] ! i)) ([100, 200] ! i)
          else ?crc (raw_bytes ([5, 9 :: 64 word] ! i)) ([100, 200] ! i)))"
    by (rule exE)
  from hh have h1: "update_crcs_with_value ?crc ?buf T_Int64 [5, 9] [100, 200] TYPE_DATE 2 0 (Some [0, 1]) = Inr h"
    and h2: "length h = 2" by blast+
  from hh have h3: "\<And>i. i < 2 \<Longrightarrow> h ! i =
         (if (case Some [0, 1 :: UInt8] of None \<Rightarrow> False | Some null_map \<Rightarrow> null_map ! i \<noteq> 0)
          then [100, 200] ! i
          else if T_Int64 = T_Int64 \<and> (TYPE_DATE = TYPE_DATE \<or> TYPE_DATE = TYPE_DATETIME)
          then ?crc (?buf ([5, 9] ! i)) ([100, 200] ! i)
          else ?crc (raw_bytes ([5, 9 :: 64 word] ! i)) ([100, 200] ! i))" by blast
  have "h ! 0 = 3149" using h3 [of 0] by simp
  moreover have "h ! 1 = 200" using h3 [of 1] by simp
  ultimately have "h = [3149, 200]" using h2
    by (intro nth_equalityI) (auto simp: less_Suc_eq numeral_2_eq_2)
  with h1 have first: "update_crcs_with_value ?crc ?buf T_Int64 [5, 9] [100, 200] TYPE_DATE 2 0 (Some [0, 1]) = Inr [3149, 200]"
    by simp
  have same: "\<forall>i<2. ?buf ([7, 9] ! i) = ?buf ([5, 9] ! i)"
    by (simp add: less_Suc_eq numeral_2_eq_2)
  have "update_crcs_with_value ?crc ?buf T_Int64 [7, 9] [100, 200] TYPE_DATE 2 0 (Some [0, 1])
      = update_crcs_with_value ?crc ?buf T_Int64 [5, 9] [100, 200] TYPE_DATE 2 0 (Some [0, 1])"
    by (rule t [THEN conjunct2, rule_format]) (use same in simp)
  with first show ?thesis by simp
qed

section \<open>Properties of the arena codec\<close>

lemma length_to_bytes [simp]: "length (to_bytes n x) = n"
  by (induction n arbitrary: x) simp_all

lemma byte_and_rest:
  "(ucast (ucast x :: UInt8) :: 'a word) OR push_bit 8 (take_bit (8 * n) (drop_bit 8 x))
   = take_bit (8 * Suc n) (x :: 'a::len word)"
  apply (rule bit_word_eqI)
  apply (simp add: bit_simps)
  apply (auto simp: le_diff_conv)
  done

lemma from_bytes_to_bytes: "from_bytes (to_bytes n x) = (take_bit (8 * n) x :: 'a::len word)"
proof (induction n arbitrary: x)
  case 0
  then show ?case by simp
next
  case (Suc n)
  have "from_bytes (to_bytes (Suc n) x)
        = (ucast (ucast x :: UInt8) :: 'a word) OR push_bit 8 (take_bit (8 * n) (drop_bit 8 x))"
    by (simp add: Suc.IH)
  also have "\<dots> = take_bit (8 * Suc n) x"
    by (rule byte_and_rest)
  finally show ?case .
qed

lemma length_raw_bytes [simp]: "length (raw_bytes (x :: 'a::len word)) = sizeof TYPE('a)"
  by (simp add: raw_bytes_def)

lemma from_bytes_raw_bytes: "from_bytes (raw_bytes x) = x"
proof -
  have "LENGTH('a) \<le> 8 * sizeof TYPE('a::len)"
    by (simp add: sizeof_def)
  then show ?thesis
    by (simp add: raw_bytes_def from_bytes_to_bytes take_bit_word_eq_self)
qed

lemma length_row_bytes:
  "length (row_bytes flag (x :: 'a::len word)) = 1 + (if flag = 0 then sizeof TYPE('a) else 0)"
  by (simp add: row_bytes_def)

lemma nat_int_mod: "nat ((int s + 1 + int w) mod 2 ^ 64) = (s + 1 + w) mod 2 ^ 64"
proof -
  have "int s + 1 + int w = int (s + 1 + w)" by simp
  moreover have "(2::int) ^ 64 = int (2 ^ 64)" by simp
  ultimately have "(int s + 1 + int w) mod 2 ^ 64 = int ((s + 1 + w) mod 2 ^ 64)"
    by (simp only: zmod_int)
  then show ?thesis by (simp only: nat_int)
qed

lemma nat_int_sub: "w \<le> s \<Longrightarrow> s < 2 ^ 64 \<Longrightarrow> nat ((int s - int w) mod 2 ^ 64) = s - w"
proof -
  assume a: "w \<le> s" "s < 2 ^ 64"
  then have "int s - int w = int (s - w)" by simp
  moreover have "(2::int) ^ 64 = int (2 ^ 64)" by simp
  ultimately have "(int s - int w) mod 2 ^ 64 = int ((s - w) mod 2 ^ 64)"
    by (simp only: zmod_int)
  moreover have "(s - w) mod 2 ^ 64 = s - w" using a by simp
  ultimately show ?thesis by (simp only: nat_int)
qed

text \<open>One row, when the buffer has room for the flag and a value.\<close>

lemma serialize_row_has_null_appended:
  fixes data :: "'a::len word list"
  assumes room: "ref_size key + 1 + sizeof TYPE('a) \<le> length (ref_data key)"
    and small: "length (ref_data key) < 2 ^ 64"
    and flag: "null_map ! i = 0 \<or> null_map ! i = 1" and i: "i < length data"
  shows "serialize_row_has_null null_map data i key
         = Inr (appended key (row_bytes (null_map ! i) (data ! i)))"
proof -
  let ?s = "ref_size key" and ?m = "ref_data key" and ?w = "sizeof TYPE('a)"
  have w1: "write_at ?m ?s [null_map ! i]
            = Inr (take ?s ?m @ [null_map ! i] @ drop (?s + 1) ?m)"
    using room by (simp add: write_at_def)
  show ?thesis
  proof (cases "null_map ! i = 0")
    case True
    let ?b1 = "take ?s ?m @ [0] @ drop (?s + 1) ?m"
    have len1: "length ?b1 = length ?m" using room by simp
    have w2: "write_at ?b1 (?s + 1) (raw_bytes (data ! i))
              = Inr (take (?s + 1) ?b1 @ raw_bytes (data ! i) @ drop (?s + 1 + ?w) ?b1)"
      using room len1 unfolding write_at_def by (simp only: length_raw_bytes if_True)
    have t: "take (?s + 1) ?b1 = take ?s ?m @ [0]" using room by simp
    have d: "drop (?s + 1 + ?w) ?b1 = drop (?s + 1 + ?w) ?m"
      using room by (simp add: add.commute add.left_commute)
    have sz: "nat ((int ?s + 1 + (1 - uint (0 :: UInt8)) * int ?w) mod 2 ^ 64) = ?s + 1 + ?w"
    proof -
      have "?s + 1 + ?w < 2 ^ 64" using room small by linarith
      then show ?thesis using nat_int_mod [of ?s ?w] by simp
    qed
    show ?thesis
      using True i w1 w2 t d sz
      by (simp add: serialize_row_has_null_def appended_def row_bytes_def add.assoc Let_def)
  next
    case False
    with flag have one: "null_map ! i = 1" by simp
    have sz: "nat ((int ?s + 1 + (1 - uint (1 :: UInt8)) * int ?w) mod 2 ^ 64) = ?s + 1"
    proof -
      have "?s + 1 + 0 < 2 ^ 64" using room small by linarith
      then show ?thesis using nat_int_mod [of ?s 0] by simp
    qed
    show ?thesis
      using one w1 sz
      by (simp add: serialize_row_has_null_def appended_def row_bytes_def Let_def)
  qed
qed

lemma serialize_row_no_null_appended:
  fixes data :: "'a::len word list"
  assumes room: "ref_size key + 1 + sizeof TYPE('a) \<le> length (ref_data key)"
    and small: "length (ref_data key) < 2 ^ 64" and i: "i < length data"
  shows "serialize_row_no_null data i key = Inr (appended key (row_bytes 0 (data ! i)))"
proof -
  let ?s = "ref_size key" and ?m = "ref_data key" and ?w = "sizeof TYPE('a)"
  let ?b1 = "take ?s ?m @ [0] @ drop (?s + 1) ?m"
  have w1: "write_at ?m ?s [0] = Inr ?b1"
    using room by (simp add: write_at_def)
  have len1: "length ?b1 = length ?m" using room by simp
  have w2: "write_at ?b1 (?s + 1) (raw_bytes (data ! i))
            = Inr (take (?s + 1) ?b1 @ raw_bytes (data ! i) @ drop (?s + 1 + ?w) ?b1)"
    using room len1 unfolding write_at_def by (simp only: length_raw_bytes if_True)
  have t: "take (?s + 1) ?b1 = take ?s ?m @ [0]" using room by simp
  have d: "drop (?s + 1 + ?w) ?b1 = drop (?s + 1 + ?w) ?m"
    using room by (simp add: add.commute add.left_commute)
  have sz: "(?s + ?w + 1) mod 2 ^ 64 = ?s + 1 + ?w"
    using room small by simp
  show ?thesis
    using i w1 w2 t d sz
    by (simp add: serialize_row_no_null_def appended_def row_bytes_def add.assoc Let_def)
qed


text \<open>The loops, row by row.\<close>

lemma serialize_loop_rows:
  "i \<le> n \<Longrightarrow> n \<le> length keys \<Longrightarrow> \<forall>j. i \<le> j \<and> j < n \<longrightarrow> row j (keys ! j) = Inr (g j) \<Longrightarrow>
   serialize_loop row i n keys = Inr (take i keys @ map g [i..<n] @ drop n keys)"
proof (induction row i n keys rule: serialize_loop.induct)
  case (1 row i n keys)
  show ?case
  proof (cases "i < n")
    case False
    with "1.prems" show ?thesis by (subst serialize_loop.simps) simp
  next
    case True
    let ?k = "keys[i := g i]"
    from True "1.prems" have ik: "i < length keys" and ri: "row i (keys ! i) = Inr (g i)"
      by simp_all
    have rest: "\<forall>j. i + 1 \<le> j \<and> j < n \<longrightarrow> row j (?k ! j) = Inr (g j)"
      using "1.prems"(3) by simp
    have "serialize_loop row i n keys = serialize_loop row (i + 1) n ?k"
      using True ik ri by (subst serialize_loop.simps) simp
    also have "\<dots> = Inr (take (i + 1) ?k @ map g [i + 1..<n] @ drop n ?k)"
      using "1.IH" [OF True ik ri _ _ rest] True "1.prems"(2) by simp
    also have "take (i + 1) ?k = take i keys @ [g i]"
      using ik by (simp add: take_Suc_conv_app_nth)
    also have "drop n ?k = drop n keys" using True by simp
    finally show ?thesis using True by (simp add: upt_conv_Cons)
  qed
qed

lemma deserialize_null_loop_rows:
  fixes data :: "'a::len word list"
  shows "i \<le> n \<Longrightarrow> n \<le> length keys \<Longrightarrow>
   \<forall>j. i \<le> j \<and> j < n \<and> null_map ! j = 0 \<longrightarrow> sizeof TYPE('a) \<le> length (ref_data (keys ! j)) \<Longrightarrow>
   deserialize_null_loop null_map i n data keys =
     Inr (data @ map (\<lambda>j. if null_map ! j = 0
                          then from_bytes (take (sizeof TYPE('a)) (ref_data (keys ! j))) else 0) [i..<n],
          take i keys
          @ map (\<lambda>j. if null_map ! j = 0
                     then \<lparr>ref_data = drop (sizeof TYPE('a)) (ref_data (keys ! j)),
                           ref_size = nat ((int (ref_size (keys ! j)) - int (sizeof TYPE('a))) mod 2 ^ 64)\<rparr>
                     else keys ! j) [i..<n]
          @ drop n keys)"
proof (induction null_map i n data keys rule: deserialize_null_loop.induct)
  case (1 null_map i n data keys)
  let ?w = "sizeof TYPE('a)"
  let ?val = "\<lambda>ks j. if null_map ! j = 0 then (from_bytes (take ?w (ref_data (ks ! j))) :: 'a word) else 0"
  let ?ref = "\<lambda>ks j. if null_map ! j = 0
                     then \<lparr>ref_data = drop ?w (ref_data (ks ! j)),
                           ref_size = nat ((int (ref_size (ks ! j)) - int ?w) mod 2 ^ 64)\<rparr>
                     else ks ! j"
  show ?case
  proof (cases "i < n")
    case False
    with "1.prems" show ?thesis by (subst deserialize_null_loop.simps) simp
  next
    case True
    from True "1.prems" have ik: "i < length keys" by simp
    show ?thesis
    proof (cases "null_map ! i = 0")
      case null: False
      have rest: "\<forall>j. i + 1 \<le> j \<and> j < n \<and> null_map ! j = 0 \<longrightarrow> ?w \<le> length (ref_data (keys ! j))"
        using "1.prems"(3) by simp
      have "deserialize_null_loop null_map i n data keys
            = deserialize_null_loop null_map (i + 1) n (data @ [0]) keys"
        using True null by (subst deserialize_null_loop.simps) simp
      also have "\<dots> = Inr ((data @ [0]) @ map (?val keys) [i + 1..<n],
                            take (i + 1) keys @ map (?ref keys) [i + 1..<n] @ drop n keys)"
        using "1.IH"(2) [OF True null _ "1.prems"(2) rest] True by simp
      finally show ?thesis
        using True null ik by (simp add: upt_conv_Cons take_Suc_conv_app_nth)
    next
      case val: True
      let ?k = "keys[i := ?ref keys i]"
      from "1.prems"(3) True val have fits: "?w \<le> length (ref_data (keys ! i))" by simp
      then have de: "deserialize_and_insert_from_arena data (ref_data (keys ! i))
                     = Inr (data @ [from_bytes (take ?w (ref_data (keys ! i)))],
                            drop ?w (ref_data (keys ! i)))"
        by (simp add: deserialize_and_insert_from_arena_def)
      have vi: "?val keys i = from_bytes (take ?w (ref_data (keys ! i)))"
        and ki: "?ref keys i = \<lparr>ref_data = drop ?w (ref_data (keys ! i)),
                           ref_size = nat ((int (ref_size (keys ! i)) - int ?w) mod 2 ^ 64)\<rparr>"
        using val by simp_all
      have rest: "\<forall>j. i + 1 \<le> j \<and> j < n \<and> null_map ! j = 0 \<longrightarrow> ?w \<le> length (ref_data (?k ! j))"
        using "1.prems"(3) by simp
      have v: "map (?val ?k) [i + 1..<n] = map (?val keys) [i + 1..<n]"
        by (rule map_cong) auto
      have r: "map (?ref ?k) [i + 1..<n] = map (?ref keys) [i + 1..<n]"
        by (rule map_cong) auto
      have "deserialize_null_loop null_map i n data keys
            = deserialize_null_loop null_map (i + 1) n (data @ [?val keys i]) ?k"
        using True val ik de unfolding vi ki by (subst deserialize_null_loop.simps) simp
      also have "\<dots> = Inr ((data @ [?val keys i]) @ map (?val ?k) [i + 1..<n],
                            take (i + 1) ?k @ map (?ref ?k) [i + 1..<n] @ drop n ?k)"
        using "1.IH"(1) [OF True val ik de refl _ _ rest [unfolded ki]] True "1.prems"(2)
        unfolding vi ki by simp
      also have "take (i + 1) ?k = take i keys @ [?ref keys i]"
        using ik by (simp add: take_Suc_conv_app_nth)
      also have "drop n ?k = drop n keys" using True by simp
      finally show ?thesis
        using True val unfolding v r by (simp add: upt_conv_Cons)
    qed
  qed
qed


lemma serialize_vec_with_null_map_rows:
  fixes data :: "'a::len word list"
  assumes keys: "num_rows \<le> length keys" and data: "num_rows \<le> length data"
    and nm: "num_rows \<le> length null_map"
    and flags: "\<forall>i<num_rows. null_map ! i = 0 \<or> null_map ! i = 1"
    and room: "\<forall>i<num_rows. ref_size (keys ! i) + 1 + sizeof TYPE('a) \<le> length (ref_data (keys ! i))
                 \<and> length (ref_data (keys ! i)) < 2 ^ 64"
  shows "serialize_vec_with_null_map data keys num_rows null_map =
    Inr (map (\<lambda>i. appended (keys ! i) (row_bytes (null_map ! i) (data ! i))) [0..<num_rows]
         @ drop num_rows keys)"
proof (cases "contain_byte null_map num_rows 1")
  case True
  have "\<forall>j. 0 \<le> j \<and> j < num_rows \<longrightarrow>
      serialize_row_has_null null_map data j (keys ! j)
      = Inr (appended (keys ! j) (row_bytes (null_map ! j) (data ! j)))"
  proof (intro allI impI)
    fix j assume "0 \<le> j \<and> j < num_rows"
    then have j: "j < num_rows" by simp
    with room flags data show "serialize_row_has_null null_map data j (keys ! j)
      = Inr (appended (keys ! j) (row_bytes (null_map ! j) (data ! j)))"
      by (intro serialize_row_has_null_appended) simp_all
  qed
  with serialize_loop_rows [where i = 0 and n = num_rows and keys = keys
      and row = "serialize_row_has_null null_map data"
      and g = "\<lambda>j. appended (keys ! j) (row_bytes (null_map ! j) (data ! j))"] keys True nm
  show ?thesis
    by (simp add: serialize_vec_with_null_map_def)
next
  case False
  have zero: "null_map ! j = 0" if "j < num_rows" for j
  proof -
    from that nm have "null_map ! j \<in> set (take num_rows null_map)"
      by (metis length_take min.absorb2 nth_mem nth_take)
    with False have "null_map ! j \<noteq> 1" by (auto simp: contain_byte_def)
    with flags that show ?thesis by blast
  qed
  have "\<forall>j. 0 \<le> j \<and> j < num_rows \<longrightarrow>
      serialize_row_no_null data j (keys ! j)
      = Inr (appended (keys ! j) (row_bytes (null_map ! j) (data ! j)))"
  proof (intro allI impI)
    fix j assume "0 \<le> j \<and> j < num_rows"
    then have j: "j < num_rows" by simp
    with room data have "serialize_row_no_null data j (keys ! j)
      = Inr (appended (keys ! j) (row_bytes 0 (data ! j)))"
      by (intro serialize_row_no_null_appended) simp_all
    with zero [OF j] show "serialize_row_no_null data j (keys ! j)
      = Inr (appended (keys ! j) (row_bytes (null_map ! j) (data ! j)))" by simp
  qed
  with serialize_loop_rows [where i = 0 and n = num_rows and keys = keys
      and row = "serialize_row_no_null data"
      and g = "\<lambda>j. appended (keys ! j) (row_bytes (null_map ! j) (data ! j))"] keys False nm
  show ?thesis
    by (simp add: serialize_vec_with_null_map_def)
qed

lemma ref_bytes_appended:
  "ref_size key \<le> length (ref_data key) \<Longrightarrow> ref_bytes (appended key bs) = ref_bytes key @ bs"
  by (simp add: ref_bytes_def appended_def)

lemma after_flag_appended:
  "ref_size key \<le> length (ref_data key) \<Longrightarrow>
   after_flag key (appended key (flag # bs)) =
     \<lparr>ref_data = bs @ drop (ref_size key + 1 + length bs) (ref_data key), ref_size = length bs\<rparr>"
  by (simp add: after_flag_def appended_def)

text \<open>
  Claim C5. For a column, a row count, one destination reference per row with room for a
  flag and a value, and a null map of flags 0 and 1: \<open>serialize_vec_with_null_map\<close>
  appends to what the reference of each row denotes the 1-byte flag of the row (0 for a
  row that is not null, 1 for a null row) and, exactly when the row is not null, the
  \<open>sizeof(T)\<close> value bytes, and advances the length of the reference by 1 byte for a null
  row and by \<open>1 + sizeof(T)\<close> bytes otherwise. \<open>deserialize_vec_with_null_map\<close>, given for
  each row the reference behind the flag and the same null map, appends to a column the
  original value of every row that is not null and the zero of the domain for every null
  row; it leaves the reference of a null row as it is, consuming no byte, and advances
  the reference of every other row past the \<open>sizeof(T)\<close> value bytes.
\<close>

theorem serialize_deserialize_with_null_map:
  fixes data :: "'a::len word list"
  assumes keys: "num_rows \<le> length keys" and data: "num_rows \<le> length data"
    and nm: "num_rows \<le> length null_map"
    and flags: "\<forall>i<num_rows. null_map ! i = 0 \<or> null_map ! i = 1"
    and room: "\<forall>i<num_rows. ref_size (keys ! i) + 1 + sizeof TYPE('a) \<le> length (ref_data (keys ! i))
                 \<and> length (ref_data (keys ! i)) < 2 ^ 64"
  shows "\<exists>keys'. serialize_vec_with_null_map data keys num_rows null_map = Inr keys' \<and>
      length keys' = length keys \<and>
      (\<forall>i<num_rows.
         ref_bytes (keys' ! i)
           = ref_bytes (keys ! i) @ [null_map ! i]
             @ (if null_map ! i = 0 then raw_bytes (data ! i) else []) \<and>
         ref_size (keys' ! i)
           = ref_size (keys ! i) + 1 + (if null_map ! i = 0 then sizeof TYPE('a) else 0)) \<and>
      (\<exists>vals'.
         deserialize_vec_with_null_map column
           (map (\<lambda>i. after_flag (keys ! i) (keys' ! i)) [0..<num_rows]) num_rows null_map
         = Inr (column @ map (\<lambda>i. if null_map ! i = 0 then data ! i else 0) [0..<num_rows], vals') \<and>
         length vals' = num_rows \<and>
         (\<forall>i<num_rows.
            vals' ! i =
              (if null_map ! i = 0
               then \<lparr>ref_data = drop (sizeof TYPE('a)) (ref_data (after_flag (keys ! i) (keys' ! i))),
                     ref_size = 0\<rparr>
               else after_flag (keys ! i) (keys' ! i))))"
proof -
  let ?w = "sizeof TYPE('a)"
  let ?row = "\<lambda>i. appended (keys ! i) (row_bytes (null_map ! i) (data ! i))"
  let ?keys' = "map ?row [0..<num_rows] @ drop num_rows keys"
  let ?vals = "map (\<lambda>i. after_flag (keys ! i) (?keys' ! i)) [0..<num_rows]"
  have ser: "serialize_vec_with_null_map data keys num_rows null_map = Inr ?keys'"
    by (rule serialize_vec_with_null_map_rows [OF keys data nm flags room])
  have len: "length ?keys' = length keys" using keys by simp
  have at: "?keys' ! i = ?row i" if "i < num_rows" for i
    using that by (simp add: nth_append)
  have fits: "ref_size (keys ! i) \<le> length (ref_data (keys ! i))" if "i < num_rows" for i
    using room that by fastforce
  have part1: "ref_bytes (?keys' ! i)
           = ref_bytes (keys ! i) @ [null_map ! i]
             @ (if null_map ! i = 0 then raw_bytes (data ! i) else []) \<and>
         ref_size (?keys' ! i)
           = ref_size (keys ! i) + 1 + (if null_map ! i = 0 then ?w else 0)"
    if "i < num_rows" for i
  proof -
    have "ref_bytes (?row i) = ref_bytes (keys ! i) @ row_bytes (null_map ! i) (data ! i)"
      by (rule ref_bytes_appended [OF fits [OF that]])
    moreover have "ref_size (?row i) = ref_size (keys ! i) + length (row_bytes (null_map ! i) (data ! i))"
      by (simp add: appended_def)
    ultimately show ?thesis
      unfolding at [OF that] by (simp add: row_bytes_def)
  qed
  have val: "?vals ! i =
      \<lparr>ref_data = (if null_map ! i = 0 then raw_bytes (data ! i) else [])
                   @ drop (ref_size (keys ! i) + 1
                           + length (if null_map ! i = 0 then raw_bytes (data ! i) else []))
                       (ref_data (keys ! i)),
       ref_size = length (if null_map ! i = 0 then raw_bytes (data ! i) else [])\<rparr>"
    if "i < num_rows" for i
  proof -
    have "?vals ! i = after_flag (keys ! i) (?row i)"
      using that at [OF that] by simp
    also have "\<dots> = after_flag (keys ! i) (appended (keys ! i)
        (null_map ! i # (if null_map ! i = 0 then raw_bytes (data ! i) else [])))"
      by (simp only: row_bytes_def)
    finally show ?thesis
      unfolding after_flag_appended [OF fits [OF that]] .
  qed
  have enough: "\<forall>j. 0 \<le> j \<and> j < num_rows \<and> null_map ! j = 0 \<longrightarrow> ?w \<le> length (ref_data (?vals ! j))"
    using val by simp
  have lv: "num_rows \<le> length ?vals" by simp
  note des = deserialize_null_loop_rows [where i = 0 and n = num_rows and keys = "?vals"
      and null_map = null_map and data = column, OF _ lv enough]
  let ?vals' = "map (\<lambda>j. if null_map ! j = 0
                     then \<lparr>ref_data = drop ?w (ref_data (?vals ! j)),
                           ref_size = nat ((int (ref_size (?vals ! j)) - int ?w) mod 2 ^ 64)\<rparr>
                     else ?vals ! j) [0..<num_rows]"
  have vs_eq: "map (\<lambda>j. if null_map ! j = 0
                          then from_bytes (take ?w (ref_data (?vals ! j))) else 0) [0..<num_rows]
      = map (\<lambda>i. if null_map ! i = 0 then data ! i else 0) [0..<num_rows]"
  proof (rule map_cong [OF refl])
    fix j assume "j \<in> set [0..<num_rows]"
    then have j: "j < num_rows" by simp
    show "(if null_map ! j = 0 then from_bytes (take ?w (ref_data (?vals ! j))) else 0)
          = (if null_map ! j = 0 then data ! j else 0)"
      using val [OF j] by (simp add: from_bytes_raw_bytes)
  qed
  have des': "deserialize_vec_with_null_map column ?vals num_rows null_map
      = Inr (column @ map (\<lambda>i. if null_map ! i = 0 then data ! i else 0) [0..<num_rows], ?vals')"
    using des nm unfolding vs_eq by (simp add: deserialize_vec_with_null_map_def)
  have refs: "?vals' ! i =
      (if null_map ! i = 0
       then \<lparr>ref_data = drop ?w (ref_data (after_flag (keys ! i) (?keys' ! i))), ref_size = 0\<rparr>
       else after_flag (keys ! i) (?keys' ! i))"
    if "i < num_rows" for i
  proof -
    have "ref_size (?vals ! i) = ?w" if "null_map ! i = 0"
      using val [OF \<open>i < num_rows\<close>] that by simp
    then have "null_map ! i = 0 \<Longrightarrow> nat ((int (ref_size (?vals ! i)) - int ?w) mod 2 ^ 64) = 0"
      by simp
    then show ?thesis using that by simp
  qed
  have inner: "\<exists>vals'.
         deserialize_vec_with_null_map column ?vals num_rows null_map
         = Inr (column @ map (\<lambda>i. if null_map ! i = 0 then data ! i else 0) [0..<num_rows], vals') \<and>
         length vals' = num_rows \<and>
         (\<forall>i<num_rows.
            vals' ! i =
              (if null_map ! i = 0
               then \<lparr>ref_data = drop ?w (ref_data (after_flag (keys ! i) (?keys' ! i))),
                     ref_size = 0\<rparr>
               else after_flag (keys ! i) (?keys' ! i)))"
    using des' refs by (intro exI [of _ ?vals']) simp
  show ?thesis
    by (rule exI [of _ ?keys']) (use ser len part1 inner in blast)
qed

text \<open>
  The fifth scenario of the spec: the 64-bit column \<open>[7, 0]\<close> with the null map \<open>[0, 1]\<close>,
  each row with an empty reference into a buffer of nine bytes. Row 0 gets the flag 0 and
  the eight bytes of 7, row 1 the flag 1 only, and reading back gives \<open>[7, 0]\<close>.
\<close>

theorem serialize_deserialize_with_null_map_witness:
  "\<exists>keys'.
     serialize_vec_with_null_map [7, 0 :: 64 word]
       [\<lparr>ref_data = [170, 170, 170, 170, 170, 170, 170, 170, 170], ref_size = 0\<rparr>,
        \<lparr>ref_data = [170, 170, 170, 170, 170, 170, 170, 170, 170], ref_size = 0\<rparr>] 2 [0, 1]
       = Inr keys' \<and>
     ref_bytes (keys' ! 0) = [0, 7, 0, 0, 0, 0, 0, 0, 0] \<and> ref_size (keys' ! 0) = 9 \<and>
     ref_bytes (keys' ! 1) = [1] \<and> ref_size (keys' ! 1) = 1 \<and>
     (\<exists>vals'.
        deserialize_vec_with_null_map []
          (map (\<lambda>i. after_flag
                 ([\<lparr>ref_data = [170, 170, 170, 170, 170, 170, 170, 170, 170], ref_size = 0\<rparr>,
                   \<lparr>ref_data = [170, 170, 170, 170, 170, 170, 170, 170, 170], ref_size = 0\<rparr>] ! i)
                 (keys' ! i)) [0..<2]) 2 [0, 1]
        = Inr ([7, 0 :: 64 word], vals'))"
proof -
  let ?buf = "[170, 170, 170, 170, 170, 170, 170, 170, 170 :: UInt8]"
  let ?keys = "[\<lparr>ref_data = ?buf, ref_size = 0\<rparr>, \<lparr>ref_data = ?buf, ref_size = 0\<rparr>]"
  let ?data = "[7, 0 :: 64 word]"
  let ?nm = "[0, 1 :: UInt8]"
  have w: "sizeof TYPE(64) = 8" by (simp add: sizeof_def)
  have a1: "2 \<le> length ?keys" and a2: "2 \<le> length ?data" and a3: "2 \<le> length ?nm"
    by simp_all
  have a4: "\<forall>i<2. ?nm ! i = 0 \<or> ?nm ! i = 1"
    by (simp add: less_Suc_eq numeral_2_eq_2)
  have a5: "\<forall>i<2. ref_size (?keys ! i) + 1 + sizeof TYPE(64) \<le> length (ref_data (?keys ! i))
                 \<and> length (ref_data (?keys ! i)) < 2 ^ 64"
  proof (intro allI impI)
    fix i :: nat assume "i < 2"
    then have "i = 0 \<or> i = 1" by auto
    then show "ref_size (?keys ! i) + 1 + sizeof TYPE(64) \<le> length (ref_data (?keys ! i))
                 \<and> length (ref_data (?keys ! i)) < 2 ^ 64"
      by (auto simp: w)
  qed
  from serialize_deserialize_with_null_map [OF a1 a2 a3 a4 a5, of "[]"]
  obtain keys' vals' where ser: "serialize_vec_with_null_map ?data ?keys 2 ?nm = Inr keys'"
    and rows: "\<And>i. i < 2 \<Longrightarrow>
         ref_bytes (keys' ! i)
           = ref_bytes (?keys ! i) @ [?nm ! i] @ (if ?nm ! i = 0 then raw_bytes (?data ! i) else []) \<and>
         ref_size (keys' ! i)
           = ref_size (?keys ! i) + 1 + (if ?nm ! i = 0 then sizeof TYPE(64) else 0)"
    and des: "deserialize_vec_with_null_map []
           (map (\<lambda>i. after_flag (?keys ! i) (keys' ! i)) [0..<2]) 2 ?nm
         = Inr ([] @ map (\<lambda>i. if ?nm ! i = 0 then ?data ! i else 0) [0..<2], vals')"
    by blast
  have seven: "raw_bytes (7 :: 64 word) = [7, 0, 0, 0, 0, 0, 0, 0]" by code_simp
  have e0: "ref_bytes \<lparr>ref_data = ?buf, ref_size = 0\<rparr> = []"
    by (simp add: ref_bytes_def)
  have r0: "ref_bytes (keys' ! 0) = [0, 7, 0, 0, 0, 0, 0, 0, 0] \<and> ref_size (keys' ! 0) = 9"
    using rows [of 0] by (simp add: seven w e0)
  have r1: "ref_bytes (keys' ! 1) = [1] \<and> ref_size (keys' ! 1) = 1"
    using rows [of 1] by (simp add: e0)
  have "map (\<lambda>i. if ?nm ! i = 0 then ?data ! i else 0) [0..<2] = [7, 0]"
    by (simp add: numeral_2_eq_2)
  with des have "deserialize_vec_with_null_map []
           (map (\<lambda>i. after_flag (?keys ! i) (keys' ! i)) [0..<2]) 2 ?nm = Inr ([7, 0 :: 64 word], vals')"
    by simp
  then have inner: "\<exists>vals'. deserialize_vec_with_null_map []
           (map (\<lambda>i. after_flag (?keys ! i) (keys' ! i)) [0..<2]) 2 ?nm = Inr ([7, 0 :: 64 word], vals')"
    by (rule exI)
  show ?thesis
    by (rule exI [of _ keys']) (use ser r0 r1 inner in simp)
qed

section \<open>Properties of the protocol-buffer converter\<close>

text \<open>
  The loop for \<open>Int128\<close> compares row numbers as \<open>size_t\<close>. Within the column it writes the
  rows from \<open>start\<close> to \<open>end\<close>. A negative \<open>start\<close> is a row number above every \<open>end\<close> that is
  not negative, and no row is written; a negative \<open>end\<close> is above every row number, and
  the loop runs off the column.
\<close>

lemma rows_loop_within: "rows_loop [10, 20, 30] 1 3 = Inr [20, 30]"
  by (simp add: rows_loop_def rows_loop_from.simps)

lemma rows_loop_negative_start: "rows_loop [10, 20, 30] (- 1) 2 = Inr []"
  by (simp add: rows_loop_def rows_loop_from.simps)

lemma rows_loop_negative_end: "rows_loop [10, 20, 30] 0 (- 1) = Inl OutOfBounds"
  by (simp add: rows_loop_def rows_loop_from.simps)

text \<open>
  Claim C9. For an element type the converter has no branch for, which among the types
  the column is instantiated for are the 128-bit unsigned type and the 128-bit address
  type, \<open>read_column_from_pb\<close> and \<open>write_column_to_pb\<close> return the status \<open>NotSupported\<close> to
  the caller: the call comes back with a value, it does not throw and does not end the
  process. The column read into is unchanged, and the message written to has only its
  \<open>type\<close> field marked present. For every other element type neither call returns
  \<open>NotSupported\<close>.
\<close>

theorem pb_unsupported_domain:
  "(T = T_UInt128 \<or> T = T_IPv6 \<longrightarrow>
      read_column_from_pb T column arg =
        Inr (NotSupported ''unknown ColumnType for reading from pb'', column)
      \<and> (cast_set_int (end - start) = Inr row_count \<longrightarrow>
           write_column_to_pb cast_set_int T column result start end =
             Inr (NotSupported ''unknown ColumnType for writing to pb'', result\<lparr>has_type := True\<rparr>)))
   \<and> (T \<noteq> T_UInt128 \<and> T \<noteq> T_IPv6 \<longrightarrow>
      (\<forall>msg c. read_column_from_pb T column arg \<noteq> Inr (NotSupported msg, c))
      \<and> (\<forall>msg r. write_column_to_pb cast_set_int T column result start end \<noteq> Inr (NotSupported msg, r)))"
proof (intro conjI impI)
  assume "T = T_UInt128 \<or> T = T_IPv6"
  then show "read_column_from_pb T column arg =
        Inr (NotSupported ''unknown ColumnType for reading from pb'', column)"
    by (auto simp: read_column_from_pb_def)
next
  assume "T = T_UInt128 \<or> T = T_IPv6" "cast_set_int (end - start) = Inr row_count"
  then show "write_column_to_pb cast_set_int T column result start end =
             Inr (NotSupported ''unknown ColumnType for writing to pb'', result\<lparr>has_type := True\<rparr>)"
    by (auto simp: write_column_to_pb_def)
next
  assume "T \<noteq> T_UInt128 \<and> T \<noteq> T_IPv6"
  then show "\<forall>msg c. read_column_from_pb T column arg \<noteq> Inr (NotSupported msg, c)"
    by (cases T) (auto simp: read_column_from_pb_def split: sum.splits)
next
  assume "T \<noteq> T_UInt128 \<and> T \<noteq> T_IPv6"
  then show "\<forall>msg r. write_column_to_pb cast_set_int T column result start end \<noteq> Inr (NotSupported msg, r)"
    by (cases T) (auto simp: write_column_to_pb_def Let_def split: sum.splits)
qed

text \<open>
  A column of the 128-bit address type with two rows, and the checked narrowing that
  accepts the values of a 32-bit \<open>int\<close>.
\<close>

theorem pb_unsupported_domain_witness:
  "read_column_from_pb T_IPv6 [1, 2] \<lparr>has_type = False, type_id = None, uint32_value = [], int32_value = [],
       uint64_value = [], int64_value = [], float_value = [], double_value = [], bytes_value = []\<rparr>
     = Inr (NotSupported ''unknown ColumnType for reading from pb'', [1, 2])
   \<and> write_column_to_pb (\<lambda>v. if - 2147483648 \<le> v \<and> v \<le> 2147483647 then Inr v else Inl (Exception INTERNAL_ERROR))
        T_IPv6 [1, 2]
        \<lparr>has_type = False, type_id = None, uint32_value = [], int32_value = [],
           uint64_value = [], int64_value = [], float_value = [], double_value = [], bytes_value = []\<rparr> 0 2
     = Inr (NotSupported ''unknown ColumnType for writing to pb'',
        \<lparr>has_type = True, type_id = None, uint32_value = [], int32_value = [],
           uint64_value = [], int64_value = [], float_value = [], double_value = [], bytes_value = []\<rparr>)"
  using pb_unsupported_domain [of T_IPv6 "[1, 2]"
      "\<lparr>has_type = False, type_id = None, uint32_value = [], int32_value = [],
       uint64_value = [], int64_value = [], float_value = [], double_value = [], bytes_value = []\<rparr>"
      "\<lambda>v. if - 2147483648 \<le> v \<and> v \<le> 2147483647 then Inr v else Inl (Exception INTERNAL_ERROR)"
      2 0 2
      "\<lparr>has_type = False, type_id = None, uint32_value = [], int32_value = [],
       uint64_value = [], int64_value = [], float_value = [], double_value = [], bytes_value = []\<rparr>"]
  by simp

section \<open>Properties of the permutation engine\<close>

subsection \<open>The threshold between the full and the partial sort\<close>

lemma to_double_exact: "n < 2 ^ 53 \<Longrightarrow> to_double n = n"
  by (simp add: to_double_def)

lemma to_double_large:
  assumes "2 ^ 53 \<le> n"
  shows "2 ^ 53 \<le> to_double n"
proof -
  define e where "e = floorlog 2 n - 53"
  define q where "q = n div 2 ^ e"
  from assms have pos: "0 < n" by (simp add: order_less_le_trans [of 0 "2 ^ 53"])
  have "\<not> n < 2 ^ 53" using assms by simp
  then have "\<not> floorlog 2 n \<le> 53" by (simp add: floorlog_le_iff)
  then have fl: "floorlog 2 n = e + 53" and e1: "1 \<le> e" by (simp_all add: e_def)
  from floorlog_bounds [OF pos, of 2] have "2 ^ (floorlog 2 n - 1) \<le> n" by simp
  then have "2 ^ (52 + e) \<le> n" by (simp add: fl)
  then have "2 ^ 52 * 2 ^ e \<le> n" by (simp only: power_add)
  then have q52: "2 ^ 52 \<le> q"
    unfolding q_def by (simp add: less_eq_div_iff_mult_less_eq)
  have "(2::nat) ^ 53 = 2 ^ 52 * 2 ^ 1" by simp
  also have "\<dots> \<le> q * 2 ^ e"
    using q52 e1 by (intro mult_le_mono power_increasing) simp_all
  finally have base: "2 ^ 53 \<le> q * 2 ^ e" .
  have "q * 2 ^ e \<le> (q + 1) * 2 ^ e" by simp
  with base have "2 ^ 53 \<le> (if 2 ^ e < 2 * (n mod 2 ^ e) \<or> (2 * (n mod 2 ^ e) = 2 ^ e \<and> odd q)
                             then q + 1 else q) * 2 ^ e"
    by (simp del: power_Suc)
  then show ?thesis
    using \<open>\<not> n < 2 ^ 53\<close> unfolding to_double_def Let_def e_def [symmetric] q_def [symmetric]
    by (simp only: if_False)
qed

lemma full_sort_test:
  assumes "s < 2 ^ 53"
  shows "(to_double s < 8 * to_double limit) = (s div 8 < limit)"
proof (cases "limit < 2 ^ 53")
  case True
  then show ?thesis using assms by (simp add: to_double_exact) linarith
next
  case False
  then have "2 ^ 53 \<le> limit" by simp
  then have "2 ^ 53 \<le> to_double limit" by (rule to_double_large)
  with assms \<open>2 ^ 53 \<le> limit\<close> show ?thesis by (simp add: to_double_exact)
qed


subsection \<open>The comparators are strict weak orderings\<close>

lemma less_irrefl: "\<not> CompareHelper_less x x h"
  by (cases x) simp_all

lemma less_trans:
  "h \<noteq> 0 \<Longrightarrow> CompareHelper_less x y h \<Longrightarrow> CompareHelper_less y z h \<Longrightarrow> CompareHelper_less x z h"
  by (cases x; cases y; cases z) auto

lemma less_negtrans:
  "h \<noteq> 0 \<Longrightarrow> \<not> CompareHelper_less x y h \<Longrightarrow> \<not> CompareHelper_less y z h \<Longrightarrow> \<not> CompareHelper_less x z h"
  by (cases x; cases y; cases z) auto

lemma greater_irrefl: "\<not> CompareHelper_greater x x h"
  by (cases x) simp_all

lemma greater_trans:
  "h \<noteq> 0 \<Longrightarrow> CompareHelper_greater x y h \<Longrightarrow> CompareHelper_greater y z h \<Longrightarrow> CompareHelper_greater x z h"
  by (cases x; cases y; cases z) auto

lemma greater_negtrans:
  "h \<noteq> 0 \<Longrightarrow> \<not> CompareHelper_greater x y h \<Longrightarrow> \<not> CompareHelper_greater y z h \<Longrightarrow> \<not> CompareHelper_greater x z h"
  by (cases x; cases y; cases z) auto

text \<open>The comparator of a direction.\<close>

lemma cmp_properties:
  fixes data :: "'a::linorder number list" and reverse :: bool
  assumes "h \<noteq> 0"
  defines "cmp \<equiv> (if reverse then greater_cmp data h else less_cmp data h)"
  shows "\<not> cmp a a" and "cmp a b \<Longrightarrow> cmp b c \<Longrightarrow> cmp a c"
    and "\<not> cmp a b \<Longrightarrow> \<not> cmp b c \<Longrightarrow> \<not> cmp a c"
  using assms(1) less_irrefl less_trans less_negtrans greater_irrefl greater_trans greater_negtrans
  unfolding cmp_def less_cmp_def greater_cmp_def
  by (cases reverse; simp; blast)+

lemma cmp_strict_weak_ordering:
  "h \<noteq> 0 \<Longrightarrow> strict_weak_ordering (if reverse then greater_cmp data h else less_cmp data h) xs"
  unfolding strict_weak_ordering_def
  using cmp_properties [of h reverse data] by blast

subsection \<open>An arrangement in order exists\<close>

lemma mset_insert_by: "mset (insert_by cmp x xs) = add_mset x (mset xs)"
  by (induction xs) simp_all

lemma mset_sort_by: "mset (sort_by cmp xs) = mset xs"
  by (induction xs) (simp_all add: mset_insert_by)

lemma set_insert_by: "set (insert_by cmp x xs) = insert x (set xs)"
  by (metis mset_insert_by set_mset_add_mset_insert set_mset_mset)

lemma ordered_by_insert_by:
  assumes asym: "\<And>a b. cmp a b \<Longrightarrow> \<not> cmp b a"
    and negtrans: "\<And>a b c. \<not> cmp a b \<Longrightarrow> \<not> cmp b c \<Longrightarrow> \<not> cmp a c"
  shows "ordered_by cmp xs \<Longrightarrow> ordered_by cmp (insert_by cmp x xs)"
proof (induction xs)
  case Nil
  then show ?case by (simp add: ordered_by_def)
next
  case (Cons y ys)
  from Cons.prems have tail: "ordered_by cmp ys" and head: "\<forall>z\<in>set ys. \<not> cmp z y"
    by (simp_all add: ordered_by_def)
  show ?case
  proof (cases "cmp y x")
    case True
    then have "\<not> cmp x y" by (rule asym)
    with True head Cons.IH [OF tail] show ?thesis
      by (simp add: ordered_by_def set_insert_by)
  next
    case False
    have "\<forall>z\<in>set ys. \<not> cmp z x"
      using head False negtrans by blast
    with False Cons.prems show ?thesis by (simp add: ordered_by_def)
  qed
qed

lemma ordered_by_sort_by:
  assumes "\<And>a b. cmp a b \<Longrightarrow> \<not> cmp b a"
    and "\<And>a b c. \<not> cmp a b \<Longrightarrow> \<not> cmp b c \<Longrightarrow> \<not> cmp a c"
  shows "ordered_by cmp (sort_by cmp xs)"
proof (induction xs)
  case Nil
  then show ?case by (simp add: ordered_by_def)
next
  case (Cons x xs)
  then show ?case using ordered_by_insert_by [OF assms] by simp
qed

lemma ordered_by_split:
  "ordered_by cmp xs \<Longrightarrow>
   ordered_by cmp (take k xs) \<and> (\<forall>a\<in>set (take k xs). \<forall>b\<in>set (drop k xs). \<not> cmp b a)"
proof -
  assume "ordered_by cmp xs"
  then have "sorted_wrt (\<lambda>a b. \<not> cmp b a) (take k xs @ drop k xs)"
    by (simp add: ordered_by_def)
  then show ?thesis
    unfolding ordered_by_def sorted_wrt_append by blast
qed

subsection \<open>What \<open>get_permutation\<close> leaves\<close>

lemma get_permutation_exists:
  fixes data :: "'a::linorder number list"
  assumes "h \<noteq> 0"
  shows "\<exists>res. get_permutation data reverse limit h res"
proof -
  let ?cmp = "if reverse then greater_cmp data h else less_cmp data h"
  let ?iota = "[0..<length data]"
  let ?res = "sort_by ?cmp ?iota"
  have asym: "\<And>a b. ?cmp a b \<Longrightarrow> \<not> ?cmp b a"
    using cmp_properties(1,2) [OF assms, of reverse data] by blast
  have ord: "ordered_by ?cmp ?res"
    by (rule ordered_by_sort_by [OF asym cmp_properties(3) [OF assms, of reverse data]])
  have full: "pdqsort ?cmp ?iota ?res"
    using ord by (simp add: pdqsort_def mset_sort_by)
  have part: "partial_sort ?cmp k ?iota ?res" for k
    using ordered_by_split [OF ord, of k] by (simp add: partial_sort_def mset_sort_by)
  show ?thesis
  proof (cases "length data = 0")
    case True
    then show ?thesis by (simp add: get_permutation_def)
  next
    case False
    have "get_permutation data reverse limit h ?res"
      using False full part unfolding get_permutation_def Let_def by (cases reverse) simp_all
    then show ?thesis ..
  qed
qed

lemma get_permutation_full:
  fixes data :: "'a::linorder number list"
  assumes small: "length data < 2 ^ 53" and h: "h \<noteq> 0"
    and limit: "limit = 0 \<or> length data div 8 < limit"
    and res: "get_permutation data reverse limit h res"
  shows "mset res = mset [0..<length data] \<and>
         ordered_by (if reverse then greater_cmp data h else less_cmp data h) res"
proof (cases "length data = 0")
  case True
  with res show ?thesis by (simp add: get_permutation_def ordered_by_def)
next
  case False
  have "(if to_double (length data) < 8 * to_double limit then 0 else limit) = 0"
    using limit full_sort_test [OF small, of limit] by auto
  with res False
  have "pdqsort (if reverse then greater_cmp data h else less_cmp data h) [0..<length data] res"
    unfolding get_permutation_def Let_def by (cases reverse) simp_all
  with cmp_strict_weak_ordering [OF h, of reverse data "[0..<length data]"]
  show ?thesis by (simp add: pdqsort_def)
qed

lemma get_permutation_partial:
  fixes data :: "'a::linorder number list"
  assumes small: "length data < 2 ^ 53" and h: "h \<noteq> 0"
    and limit: "0 < limit" "limit \<le> length data div 8"
    and res: "get_permutation data reverse limit h res"
  defines "cmp \<equiv> (if reverse then greater_cmp data h else less_cmp data h)"
  shows "mset res = mset [0..<length data] \<and> ordered_by cmp (take limit res) \<and>
         (\<forall>a\<in>set (take limit res). \<forall>b\<in>set (drop limit res). \<not> cmp b a)"
proof -
  from limit have nonempty: "length data \<noteq> 0" by auto
  have "(if to_double (length data) < 8 * to_double limit then 0 else limit) = limit"
    using limit full_sort_test [OF small, of limit] by auto
  with res nonempty limit(1)
  have "partial_sort cmp limit [0..<length data] res"
    unfolding get_permutation_def Let_def cmp_def by (cases reverse) simp_all
  with cmp_strict_weak_ordering [OF h, of reverse data "[0..<length data]"]
  show ?thesis by (simp add: partial_sort_def cmp_def)
qed

text \<open>
  Claim C3. For every column of fewer than \<open>2 ^ 53\<close> rows, where the conversion of the row
  count to a double is exact, and every nonzero hint: whenever \<open>limit\<close> is 0 or exceeds
  \<open>size() / 8\<close>, \<open>get_permutation\<close> with \<open>reverse = false\<close> does a full sort. Some
  permutation results, and every permutation that can result has the length of the
  column, is an arrangement of the indices \<open>0, ..., size() - 1\<close>, and lists the elements in
  an order in which no element is followed by one that is less under the comparator with
  the hint.
\<close>

theorem get_permutation_full_sort:
  fixes data :: "'a::linorder number list"
  assumes "length data < 2 ^ 53" and "nan_direction_hint \<noteq> 0"
    and "limit = 0 \<or> length data div 8 < limit"
  shows "(\<exists>res. get_permutation data False limit nan_direction_hint res) \<and>
         (\<forall>res. get_permutation data False limit nan_direction_hint res \<longrightarrow>
            length res = length data \<and> mset res = mset [0..<length data] \<and>
            sorted_wrt (\<lambda>x y. \<not> CompareHelper_less y x nan_direction_hint) (map ((!) data) res))"
proof (intro conjI allI impI)
  show "\<exists>res. get_permutation data False limit nan_direction_hint res"
    by (rule get_permutation_exists [OF assms(2)])
next
  fix res assume "get_permutation data False limit nan_direction_hint res"
  from get_permutation_full [OF assms this]
  have m: "mset res = mset [0..<length data]"
    and o: "ordered_by (less_cmp data nan_direction_hint) res" by simp_all
  from m show "mset res = mset [0..<length data]" .
  from m show "length res = length data" by (metis length_upt mset_eq_length minus_nat.diff_0)
  from o show "sorted_wrt (\<lambda>x y. \<not> CompareHelper_less y x nan_direction_hint) (map ((!) data) res)"
    by (simp add: ordered_by_def less_cmp_def sorted_wrt_map)
qed

subsection \<open>Without ties the order is fixed\<close>

lemma ordered_by_unique:
  "\<forall>a\<in>set p. \<forall>b\<in>set p. a \<noteq> b \<longrightarrow> cmp a b \<or> cmp b a \<Longrightarrow>
   ordered_by cmp p \<Longrightarrow> ordered_by cmp q \<Longrightarrow> mset p = mset q \<Longrightarrow> p = q"
proof (induction p arbitrary: q)
  case Nil
  then show ?case by simp
next
  case (Cons x p)
  from Cons.prems(4) obtain y q' where q: "q = y # q'"
    by (cases q) auto
  have sets: "set (x # p) = set (y # q')"
    using Cons.prems(4) q by (metis mset_eq_setD)
  have "x = y"
  proof (rule ccontr)
    assume ne: "x \<noteq> y"
    with sets have xq: "x \<in> set q'" and yp: "y \<in> set p" by auto
    from Cons.prems(2) yp have "\<not> cmp y x" by (simp add: ordered_by_def)
    moreover from Cons.prems(3) q xq have "\<not> cmp x y" by (simp add: ordered_by_def)
    moreover from Cons.prems(1) ne yp have "cmp x y \<or> cmp y x" by simp
    ultimately show False by blast
  qed
  moreover have "p = q'"
  proof (rule Cons.IH)
    show "\<forall>a\<in>set p. \<forall>b\<in>set p. a \<noteq> b \<longrightarrow> cmp a b \<or> cmp b a"
      using Cons.prems(1) by simp
    show "ordered_by cmp p" using Cons.prems(2) by (simp add: ordered_by_def)
    show "ordered_by cmp q'" using Cons.prems(3) q by (simp add: ordered_by_def)
    show "mset p = mset q'" using Cons.prems(4) q \<open>x = y\<close> by simp
  qed
  ultimately show ?case using q by simp
qed

text \<open>
  The third scenario of the spec: on the floating column \<open>[1.0, NaN, -1.0]\<close> with \<open>NaN\<close> as
  greatest, the ascending permutation is \<open>[2, 0, 1]\<close>, and no other.
\<close>

theorem get_permutation_full_sort_witness:
  "\<forall>res. get_permutation [Num 1, NaN, Num (- 1 :: int)] False 0 1 res = (res = [2, 0, 1])"
proof -
  let ?data = "[Num 1, NaN, Num (- 1 :: int)]"
  have swo: "strict_weak_ordering (less_cmp ?data 1) [0..<3]"
    using cmp_strict_weak_ordering [of 1 False ?data] by simp
  have iota: "[0..<3] = [0, 1, 2]" by (simp add: upt_rec)
  have ord: "ordered_by (less_cmp ?data 1) [2, 0, 1]"
    by (simp add: ordered_by_def less_cmp_def)
  have perm: "mset [2, 0, 1 :: nat] = mset [0..<3]" by (simp add: iota)
  have l: "[0..<length ?data] = [0..<3]" by code_simp
  have pdq: "pdqsort (less_cmp ?data 1) [0..<length ?data] [2, 0, 1]"
    unfolding pdqsort_def l by (intro impI conjI) (rule perm, rule ord)
  have "get_permutation ?data False 0 1 [2, 0, 1]
        = pdqsort (less_cmp ?data 1) [0..<length ?data] [2, 0, 1]"
    by (simp add: get_permutation_def to_double_def)
  with pdq have is_res: "get_permutation ?data False 0 1 [2, 0, 1]" by blast
  have only: "res = [2, 0, 1]" if r: "get_permutation ?data False 0 1 res" for res
  proof -
    have a1: "length ?data < 2 ^ 53" and a2: "(1 :: int) \<noteq> 0"
      and a3: "(0 :: nat) = 0 \<or> length ?data div 8 < 0"
      by simp_all
    from get_permutation_full_sort [OF a1 a2 a3] r
    have m: "mset res = mset [0..<length ?data]"
      and s: "sorted_wrt (\<lambda>x y. \<not> CompareHelper_less y x 1) (map ((!) ?data) res)"
      by blast+
    from s have o: "ordered_by (less_cmp ?data 1) res"
      by (simp add: ordered_by_def less_cmp_def sorted_wrt_map)
    from m have m3: "mset res = mset [0, 1, 2]" by (simp only: l iota)
    then have "set res = {0, 1, 2}" by (metis mset_eq_setD list.simps(15) empty_set)
    then have ties: "\<forall>a\<in>set res. \<forall>b\<in>set res. a \<noteq> b \<longrightarrow> less_cmp ?data 1 a b \<or> less_cmp ?data 1 b a"
      by (simp add: less_cmp_def)
    show "res = [2, 0, 1]"
      by (rule ordered_by_unique [OF ties o ord]) (simp only: m3 perm iota)
  qed
  show ?thesis using is_res only by blast
qed

subsection \<open>The partial sort against the full sort\<close>

lemma greater_is_less_flipped: "CompareHelper_greater x y h = CompareHelper_less y x h"
  by (cases x; cases y) auto

text \<open>
  When some \<open>k\<close> elements come strictly before all the others, they are the first \<open>k\<close> of
  every arrangement none of whose first \<open>k\<close> elements has a lesser element behind it.
\<close>

lemma head_is_cut:
  assumes dist: "distinct p" and k: "k \<le> length p"
    and S: "S \<subseteq> set p" "card S = k"
    and sep: "\<forall>a\<in>S. \<forall>b\<in>set p - S. cmp a b"
    and sp: "\<forall>a\<in>set (take k p). \<forall>b\<in>set (drop k p). \<not> cmp b a"
  shows "set (take k p) = S"
proof -
  have finS: "finite S" using S(1) by (rule finite_subset) simp
  have cardH: "card (set (take k p)) = k"
    using dist k by (simp add: distinct_card)
  have "set (take k p) \<subseteq> S"
  proof (rule ccontr)
    assume "\<not> set (take k p) \<subseteq> S"
    then obtain x where xH: "x \<in> set (take k p)" and xS: "x \<notin> S" by blast
    have "\<not> S \<subseteq> set (take k p)"
    proof
      assume "S \<subseteq> set (take k p)"
      then have "S = set (take k p)"
        using cardH S(2) by (simp add: card_subset_eq)
      with xH xS show False by simp
    qed
    then obtain y where yS: "y \<in> S" and yH: "y \<notin> set (take k p)" by blast
    from yS S(1) have "y \<in> set p" by blast
    with yH have yD: "y \<in> set (drop k p)"
      by (metis Un_iff append_take_drop_id set_append)
    have "x \<in> set p" using xH by (rule in_set_takeD)
    with xS yS sep have "cmp y x" by blast
    moreover from sp xH yD have "\<not> cmp y x" by blast
    ultimately show False by blast
  qed
  then show ?thesis
    using finS cardH S(2) by (simp add: card_subset_eq)
qed

text \<open>
  Claim C6 as stated: in the regime of the partial sort, the first \<open>limit\<close> positions of
  the full sort and of the partial sort hold the same set of row indices. The column is
  \<open>[5, 1, 1, 0, 5, ..., 5]\<close> of sixteen rows, ascending, with \<open>limit = 2\<close>, which is
  \<open>size() / 8\<close>. The least row is row 3, and rows 1 and 2 are tied for the second place.
  \<open>pdqsort\<close> sorts a range of fewer than 24 elements by insertion, which keeps tied rows in
  their order, and leaves \<open>[3, 1, 2, 0, 4, ..., 15]\<close>. \<open>std::partial_sort\<close> keeps the \<open>limit\<close>
  least rows met so far in a heap and gives up the row at its top when a lesser row
  comes: rows 1 and 2 are in the heap with row 1 at the top when row 3 comes, and the
  call leaves \<open>[3, 2, 0, 1, 4, ..., 15]\<close>. Both are results that the unstable sorts may
  leave, and the sets \<open>{3, 1}\<close> and \<open>{3, 2}\<close> differ.
\<close>

theorem partial_full_sets_counterexample:
  "get_permutation
     [Num 5, Num 1, Num 1, Num 0, Num 5, Num 5, Num 5, Num 5,
      Num 5, Num 5, Num 5, Num 5, Num 5, Num 5, Num 5, Num (5 :: int)]
     False 0 1 [3, 1, 2, 0, 4, 5, 6, 7, 8, 9, 10, 11, 12, 13, 14, 15]
   \<and> get_permutation
     [Num 5, Num 1, Num 1, Num 0, Num 5, Num 5, Num 5, Num 5,
      Num 5, Num 5, Num 5, Num 5, Num 5, Num 5, Num 5, Num (5 :: int)]
     False 2 1 [3, 2, 0, 1, 4, 5, 6, 7, 8, 9, 10, 11, 12, 13, 14, 15]
   \<and> (0 :: nat) < 2
   \<and> 2 \<le> length
       [Num 5, Num 1, Num 1, Num 0, Num 5, Num 5, Num 5, Num 5,
        Num 5, Num 5, Num 5, Num 5, Num 5, Num 5, Num 5, Num (5 :: int)] div 8
   \<and> set (take 2 [3, 1, 2, 0, 4, 5, 6, 7, 8, 9, 10, 11, 12, 13, 14, 15 :: nat])
       \<noteq> set (take 2 [3, 2, 0, 1, 4, 5, 6, 7, 8, 9, 10, 11, 12, 13, 14, 15])"
proof -
  let ?data = "[Num 5, Num 1, Num 1, Num 0, Num 5, Num 5, Num 5, Num 5,
      Num 5, Num 5, Num 5, Num 5, Num 5, Num 5, Num 5, Num (5 :: int)]"
  let ?p = "[3, 1, 2, 0, 4, 5, 6, 7, 8, 9, 10, 11, 12, 13, 14, 15 :: nat]"
  let ?q = "[3, 2, 0, 1, 4, 5, 6, 7, 8, 9, 10, 11, 12, 13, 14, 15 :: nat]"
  have l: "[0..<length ?data] = [0..<16]" by code_simp
  have iota: "[0..<16] = [0, 1, 2, 3, 4, 5, 6, 7, 8, 9, 10, 11, 12, 13, 14, 15]" by code_simp
  have mp: "mset ?p = mset [0..<16]" unfolding iota by simp
  have mq: "mset ?q = mset [0..<16]" unfolding iota by simp
  have op: "ordered_by (less_cmp ?data 1) ?p"
    by (simp add: ordered_by_def less_cmp_def)
  have oq: "ordered_by (less_cmp ?data 1) (take 2 ?q)"
    by (simp add: ordered_by_def less_cmp_def)
  have sq: "\<forall>a\<in>set (take 2 ?q). \<forall>b\<in>set (drop 2 ?q). \<not> less_cmp ?data 1 b a"
    by (simp add: less_cmp_def)
  have full: "pdqsort (less_cmp ?data 1) [0..<length ?data] ?p"
    unfolding pdqsort_def l by (intro impI conjI) (rule mp, rule op)
  have part: "partial_sort (less_cmp ?data 1) 2 [0..<length ?data] ?q"
    unfolding partial_sort_def l by (intro impI conjI) (rule mq, rule oq, rule sq)
  have "get_permutation ?data False 0 1 ?p = pdqsort (less_cmp ?data 1) [0..<length ?data] ?p"
    by (simp add: get_permutation_def to_double_def)
  with full have 1: "get_permutation ?data False 0 1 ?p" by blast
  have "get_permutation ?data False 2 1 ?q
        = partial_sort (less_cmp ?data 1) 2 [0..<length ?data] ?q"
    by (simp add: get_permutation_def to_double_def)
  with part have 2: "get_permutation ?data False 2 1 ?q" by blast
  have 3: "(0 :: nat) < 2 \<and> 2 \<le> length ?data div 8" by simp
  have 4: "set (take 2 ?p) \<noteq> set (take 2 ?q)" by (simp add: doubleton_eq_iff)
  from 1 2 3 4 show ?thesis by blast
qed

text \<open>
  Claim C6 as amended. For every column of fewer than \<open>2 ^ 53\<close> rows, every direction,
  every nonzero hint and every \<open>limit\<close> with \<open>0 < limit \<le> size() / 8\<close>: when no tie
  straddles the cut after the first \<open>limit\<close> rows, which is to say that some set \<open>S\<close> of
  \<open>limit\<close> rows is such that each of its rows comes strictly before every other row under
  the comparator of the direction, the first \<open>limit\<close> positions of a permutation that the
  full sort (\<open>limit = 0\<close>) leaves and of a permutation that the partial sort leaves hold
  the same set of row indices. Rows may be tied on either side of the cut.
\<close>

theorem partial_full_sets_agree:
  fixes data :: "'a::linorder number list"
  assumes small: "length data < 2 ^ 53" and hint: "nan_direction_hint \<noteq> 0"
    and limit: "0 < limit" "limit \<le> length data div 8"
    and cut: "S \<subseteq> {0..<length data}" "card S = limit"
    and sep: "\<forall>a\<in>S. \<forall>b\<in>{0..<length data} - S.
        (if reverse then greater_cmp data nan_direction_hint a b
         else less_cmp data nan_direction_hint a b)"
    and full: "get_permutation data reverse 0 nan_direction_hint p"
    and part: "get_permutation data reverse limit nan_direction_hint q"
  shows "set (take limit p) = set (take limit q)"
proof -
  let ?cmp = "if reverse then greater_cmp data nan_direction_hint
              else less_cmp data nan_direction_hint"
  from get_permutation_full [OF small hint _ full]
  have mp: "mset p = mset [0..<length data]" and op: "ordered_by ?cmp p" by simp_all
  from get_permutation_partial [OF small hint limit part]
  have mq: "mset q = mset [0..<length data]"
    and sq: "\<forall>a\<in>set (take limit q). \<forall>b\<in>set (drop limit q). \<not> ?cmp b a" by simp_all
  from ordered_by_split [OF op, of limit]
  have sp: "\<forall>a\<in>set (take limit p). \<forall>b\<in>set (drop limit p). \<not> ?cmp b a" by blast
  have setp: "set p = {0..<length data}" using mp by (metis mset_eq_setD set_upt)
  have setq: "set q = {0..<length data}" using mq by (metis mset_eq_setD set_upt)
  have dp: "distinct p" using mp by (metis distinct_upt mset_eq_imp_distinct_iff)
  have dq: "distinct q" using mq by (metis distinct_upt mset_eq_imp_distinct_iff)
  have lp: "length p = length data" using mp by (metis length_upt mset_eq_length minus_nat.diff_0)
  have lq: "length q = length data" using mq by (metis length_upt mset_eq_length minus_nat.diff_0)
  have "limit \<le> length data" using limit(2) by (rule order_trans) simp
  then have kp: "limit \<le> length p" and kq: "limit \<le> length q" by (simp_all add: lp lq)
  have sep': "\<forall>a\<in>S. \<forall>b\<in>{0..<length data} - S. ?cmp a b"
    using sep by (cases reverse) simp_all
  have "set (take limit p) = S"
    using cut sep' by (intro head_is_cut [OF dp kp _ _ _ sp]) (simp_all add: setp)
  moreover have "set (take limit q) = S"
    using cut sep' by (intro head_is_cut [OF dq kq _ _ _ sq]) (simp_all add: setq)
  ultimately show ?thesis by simp
qed

text \<open>
  The column \<open>[5, 1, 1, 0, 5, ..., 5]\<close> of sixteen rows with \<open>limit = 1\<close>: row 3 alone comes
  strictly before every other row, and rows are tied behind the cut. The full sort leaves
  \<open>[3, 1, 2, 0, 4, ..., 15]\<close>, the partial sort leaves \<open>[3, 0, 2, 1, 4, ..., 15]\<close>, and both
  start with row 3.
\<close>

theorem partial_full_sets_agree_witness:
  "get_permutation
     [Num 5, Num 1, Num 1, Num 0, Num 5, Num 5, Num 5, Num 5,
      Num 5, Num 5, Num 5, Num 5, Num 5, Num 5, Num 5, Num (5 :: int)]
     False 0 1 [3, 1, 2, 0, 4, 5, 6, 7, 8, 9, 10, 11, 12, 13, 14, 15]
   \<and> get_permutation
     [Num 5, Num 1, Num 1, Num 0, Num 5, Num 5, Num 5, Num 5,
      Num 5, Num 5, Num 5, Num 5, Num 5, Num 5, Num 5, Num (5 :: int)]
     False 1 1 [3, 0, 2, 1, 4, 5, 6, 7, 8, 9, 10, 11, 12, 13, 14, 15]
   \<and> set (take 1 [3, 1, 2, 0, 4, 5, 6, 7, 8, 9, 10, 11, 12, 13, 14, 15 :: nat])
       = set (take 1 [3, 0, 2, 1, 4, 5, 6, 7, 8, 9, 10, 11, 12, 13, 14, 15])"
proof -
  let ?data = "[Num 5, Num 1, Num 1, Num 0, Num 5, Num 5, Num 5, Num 5,
      Num 5, Num 5, Num 5, Num 5, Num 5, Num 5, Num 5, Num (5 :: int)]"
  let ?p = "[3, 1, 2, 0, 4, 5, 6, 7, 8, 9, 10, 11, 12, 13, 14, 15 :: nat]"
  let ?q = "[3, 0, 2, 1, 4, 5, 6, 7, 8, 9, 10, 11, 12, 13, 14, 15 :: nat]"
  have l: "[0..<length ?data] = [0..<16]" by code_simp
  have iota: "[0..<16] = [0, 1, 2, 3, 4, 5, 6, 7, 8, 9, 10, 11, 12, 13, 14, 15]" by code_simp
  have mp: "mset ?p = mset [0..<16]" unfolding iota by simp
  have mq: "mset ?q = mset [0..<16]" unfolding iota by simp
  have op: "ordered_by (less_cmp ?data 1) ?p"
    by (simp add: ordered_by_def less_cmp_def)
  have oq: "ordered_by (less_cmp ?data 1) (take 1 ?q)"
    by (simp add: ordered_by_def)
  have sq: "\<forall>a\<in>set (take 1 ?q). \<forall>b\<in>set (drop 1 ?q). \<not> less_cmp ?data 1 b a"
    by (simp add: less_cmp_def)
  have "pdqsort (less_cmp ?data 1) [0..<length ?data] ?p"
    unfolding pdqsort_def l by (intro impI conjI) (rule mp, rule op)
  moreover have "get_permutation ?data False 0 1 ?p
      = pdqsort (less_cmp ?data 1) [0..<length ?data] ?p"
    by (simp add: get_permutation_def to_double_def)
  ultimately have full: "get_permutation ?data False 0 1 ?p" by blast
  have "partial_sort (less_cmp ?data 1) 1 [0..<length ?data] ?q"
    unfolding partial_sort_def l by (intro impI conjI) (rule mq, rule oq, rule sq)
  moreover have "get_permutation ?data False 1 1 ?q
      = partial_sort (less_cmp ?data 1) 1 [0..<length ?data] ?q"
    by (simp add: get_permutation_def to_double_def)
  ultimately have part: "get_permutation ?data False 1 1 ?q" by blast
  have "\<forall>b\<in>set [0..<16]. b \<noteq> 3 \<longrightarrow> less_cmp ?data 1 3 b"
    unfolding iota by (simp add: less_cmp_def)
  then have sep: "\<forall>a\<in>{3 :: nat}. \<forall>b\<in>{0..<length ?data} - {3}.
      (if False then greater_cmp ?data 1 a b else less_cmp ?data 1 a b)"
    by simp
  have a: "length ?data < 2 ^ 53" "(1 :: int) \<noteq> 0" "(0 :: nat) < 1" "1 \<le> length ?data div 8"
    "{3 :: nat} \<subseteq> {0..<length ?data}" "card {3 :: nat} = 1"
    by simp_all
  from partial_full_sets_agree [OF a sep full part] full part
  show ?thesis by blast
qed

end
